theory Spec2Isabelle
  imports Complex_Main "HOL-Library.Word" "HOL-Library.Sublist" "HOL-Library.Multiset"
begin

section \<open>Shannon-Fano compression: a model of \<open>shannon_fano.py\<close>\<close>

text \<open>
  Conventions of the model.
  \<^item> A character of the input is its code point, a natural number (\<open>ord\<close>); the input
    file is the list of the characters that \<open>read(1)\<close> yields, the decompressed file the
    list of the characters written.
  \<^item> A byte of the compressed file is an \<open>8 word\<close>; a binary file is a list of bytes,
    and reading consumes it from the front.
  \<^item> A codeword is a string of the characters \<open>0\<close> and \<open>1\<close>.
  \<^item> The probabilities \<open>stat/total\<close> are exact rationals here; the source computes them
    in binary floating point.
  \<^item> A raised exception is a value of type \<open>error\<close>; a loop that does not end is the
    value \<open>None\<close> of a \<open>partial_function\<close>.
\<close>

type_synonym symbol = nat
type_synonym byte = "8 word"
type_synonym freq = "symbol \<times> rat"
type_synonym encoder = "(symbol \<times> string) list"

datatype error = OverflowError | TypeError | IndexError | ValueError

subsection \<open>\<open>frequency\<close>\<close>

text \<open>\<open>Counter.update(char)\<close>: a dictionary in insertion order.\<close>

fun counter_update :: "symbol \<Rightarrow> (symbol \<times> nat) list \<Rightarrow> (symbol \<times> nat) list" where
  "counter_update c [] = [(c, 1)]"
| "counter_update c ((k, n) # rest) =
     (if k = c then (k, n + 1) # rest else (k, n) # counter_update c rest)"

fun count_chars :: "symbol list \<Rightarrow> (symbol \<times> nat) list \<Rightarrow> (symbol \<times> nat) list" where
  "count_chars [] counter = counter"
| "count_chars (c # cs) counter = count_chars cs (counter_update c counter)"

text \<open>\<open>most_common()\<close>: a stable sort by decreasing count.\<close>

definition most_common :: "(symbol \<times> nat) list \<Rightarrow> (symbol \<times> nat) list" where
  "most_common counter = sort_key (\<lambda>(c, n). - int n) counter"

definition frequency :: "symbol list \<Rightarrow> nat \<times> freq list" where
  "frequency file_input =
     (let total = length file_input;
          counter = count_chars file_input []
      in (total, map (\<lambda>(char, stat). (char, rat_of_nat stat / rat_of_nat total))
                     (most_common counter)))"

subsection \<open>\<open>to_byte\<close>, \<open>from_byte\<close> and the string functions of Python\<close>

definition to_byte :: "nat \<Rightarrow> error + byte" where
  "to_byte data = (if data < 256 then Inr (of_nat data) else Inl OverflowError)"

text \<open>\<open>int.from_bytes(data, "big")\<close>; the empty bytes object (a read at the end of the
  file) gives 0.\<close>

definition from_byte :: "byte list \<Rightarrow> nat" where
  "from_byte data = foldl (\<lambda>acc b. 256 * acc + unat b) 0 data"

fun read1 :: "byte list \<Rightarrow> byte list \<times> byte list" where
  "read1 [] = ([], [])"
| "read1 (b # bs) = ([b], bs)"

definition is_bit :: "char \<Rightarrow> bool" where
  "is_bit c = (c = CHR ''0'' \<or> c = CHR ''1'')"

definition bit_val :: "char \<Rightarrow> nat" where
  "bit_val c = (if c = CHR ''1'' then 1 else 0)"

definition bin_value :: "string \<Rightarrow> nat" where
  "bin_value s = foldl (\<lambda>acc c. 2 * acc + bit_val c) 0 s"

text \<open>\<open>int(s, 2)\<close> on a string of binary digits; anything else (the empty string too)
  is a \<open>ValueError\<close>.\<close>

definition int2 :: "string \<Rightarrow> error + nat" where
  "int2 s = (if s \<noteq> [] \<and> list_all is_bit s then Inr (bin_value s) else Inl ValueError)"

definition bit_char :: "nat \<Rightarrow> char" where
  "bit_char d = (if d = 0 then CHR ''0'' else CHR ''1'')"

text \<open>\<open>bin(n)[2:]\<close>\<close>

fun bin_digits :: "nat \<Rightarrow> string" where
  "bin_digits n = (if n < 2 then [bit_char n] else bin_digits (n div 2) @ [bit_char (n mod 2)])"

declare bin_digits.simps [simp del]

definition rjust :: "nat \<Rightarrow> char \<Rightarrow> string \<Rightarrow> string" where
  "rjust w c s = replicate (w - length s) c @ s"

definition ljust :: "nat \<Rightarrow> char \<Rightarrow> string \<Rightarrow> string" where
  "ljust w c s = s @ replicate (w - length s) c"

definition BYTE_LENGTH :: nat where
  "BYTE_LENGTH = 8"

subsection \<open>\<open>encode\<close>\<close>

text \<open>\<open>encoder[k].append(b)\<close> on a \<open>defaultdict(list)\<close>: a new key goes to the end.\<close>

fun append_bit :: "symbol \<Rightarrow> char \<Rightarrow> encoder \<Rightarrow> encoder" where
  "append_bit k b [] = [(k, [b])]"
| "append_bit k b ((k', v) # rest) =
     (if k' = k then (k', v @ [b]) # rest else (k', v) # append_bit k b rest)"

text \<open>\<open>xs[i]\<close>: a negative index counts from the end, an index out of range raises.\<close>

definition py_index :: "'a list \<Rightarrow> int \<Rightarrow> error + 'a" where
  "py_index xs i =
     (if 0 \<le> i \<and> i < int (length xs) then Inr (xs ! nat i)
      else if i < 0 \<and> - int (length xs) \<le> i then Inr (xs ! nat (int (length xs) + i))
      else Inl IndexError)"

text \<open>The first \<open>for\<close> loop of the general case: \<open>half += frequency_data[i][1]\<close>.\<close>

fun sum_range :: "freq list \<Rightarrow> int list \<Rightarrow> rat \<Rightarrow> error + rat" where
  "sum_range fd [] half = Inr half"
| "sum_range fd (i # is) half =
     (case py_index fd i of
        Inl e \<Rightarrow> Inl e
      | Inr (c, p) \<Rightarrow> sum_range fd is (half + p))"

text \<open>The second \<open>for\<close> loop; the state is \<open>(partition, partition_index, encoder)\<close>, with \<open>part\<close> for \<open>partition\<close>.\<close>

fun split_range ::
  "freq list \<Rightarrow> rat \<Rightarrow> int list \<Rightarrow> rat \<times> int \<times> encoder \<Rightarrow> error + (rat \<times> int \<times> encoder)" where
  "split_range fd half [] st = Inr st"
| "split_range fd half (i # is) (part, partition_index, enc) =
     (case py_index fd i of
        Inl e \<Rightarrow> Inl e
      | Inr (i_char, p) \<Rightarrow>
          if part \<le> half
          then split_range fd half is (part + p, partition_index, append_bit i_char CHR ''0'' enc)
          else split_range fd half is
                 (part + p, (if partition_index < 0 then i else partition_index),
                  append_bit i_char CHR ''1'' enc))"

text \<open>The \<open>while stack\<close> loop. The head of the list is the top of the stack.\<close>

partial_function (option) encode_loop ::
  "freq list \<Rightarrow> encoder \<Rightarrow> (int \<times> int) list \<Rightarrow> (error + encoder) option" where
  "encode_loop fd enc stack =
     (case stack of
        [] \<Rightarrow> Some (Inr enc)
      | (start, end) # rest \<Rightarrow>
          if start = end then encode_loop fd enc rest
          else if end - start = 1 then
            (case py_index fd start of
               Inl e \<Rightarrow> Some (Inl e)
             | Inr (start_char, p) \<Rightarrow>
                 (case py_index fd end of
                    Inl e \<Rightarrow> Some (Inl e)
                  | Inr (end_char, q) \<Rightarrow>
                      encode_loop fd
                        (append_bit end_char CHR ''1'' (append_bit start_char CHR ''0'' enc)) rest))
          else
            (case sum_range fd [start..end] 0 of
               Inl e \<Rightarrow> Some (Inl e)
             | Inr half \<Rightarrow>
                 (case split_range fd (half * (1/2)) [start..end] (0, -1, enc) of
                    Inl e \<Rightarrow> Some (Inl e)
                  | Inr (part, partition_index, enc') \<Rightarrow>
                      encode_loop fd enc'
                        ((start, partition_index - 1) # (partition_index, end) # rest))))"

declare encode_loop.simps [code]

definition encode :: "freq list \<Rightarrow> (error + encoder) option" where
  "encode frequency_data = encode_loop frequency_data [] [(0, int (length frequency_data) - 1)]"

subsection \<open>\<open>pack_metadata\<close>, \<open>pack_data\<close>, \<open>pack\<close>\<close>

text \<open>
  The output file is the list of the bytes written so far. A function that writes returns
  the file together with the exception it raised, if any, so that what was written
  before a failure stays visible.
\<close>

fun pack_entries :: "encoder \<Rightarrow> byte list \<Rightarrow> byte list \<times> error option" where
  "pack_entries [] file_output = (file_output, None)"
| "pack_entries ((key, val) # rest) file_output =
     (case to_byte key of
        Inl e \<Rightarrow> (file_output, Some e)
      | Inr encoded_key \<Rightarrow>
          (case to_byte (length val) of
             Inl e \<Rightarrow> (file_output, Some e)
           | Inr encoded_value_len \<Rightarrow>
               (case int2 val of
                  Inl e \<Rightarrow> (file_output, Some e)
                | Inr n \<Rightarrow>
                    (case to_byte n of
                       Inl e \<Rightarrow> (file_output, Some e)
                     | Inr encoded_value \<Rightarrow>
                         pack_entries rest
                           (file_output @ [encoded_key, encoded_value_len, encoded_value])))))"

definition pack_metadata ::
  "byte list \<Rightarrow> encoder \<Rightarrow> nat \<Rightarrow> freq list \<Rightarrow> byte list \<times> error option" where
  "pack_metadata file_output encoder input_size frequency_data =
     (case to_byte (length frequency_data) of
        Inl e \<Rightarrow> (file_output, Some e)
      | Inr encoder_size \<Rightarrow>
          (case to_byte input_size of
             Inl e \<Rightarrow> (file_output @ [encoder_size], Some e)
           | Inr size_byte \<Rightarrow> pack_entries encoder (file_output @ [encoder_size, size_byte])))"

text \<open>The inner \<open>while len(bits) > BYTE_LENGTH\<close> loop.\<close>

function flush_bytes :: "string \<Rightarrow> byte list \<Rightarrow> byte list \<times> (error + string)" where
  "flush_bytes bits file_output =
     (if length bits > BYTE_LENGTH then
        (case int2 (take BYTE_LENGTH bits) of
           Inl e \<Rightarrow> (file_output, Inl e)
         | Inr n \<Rightarrow>
             (case to_byte n of
                Inl e \<Rightarrow> (file_output, Inl e)
              | Inr byte \<Rightarrow> flush_bytes (drop BYTE_LENGTH bits) (file_output @ [byte])))
      else (file_output, Inr bits))"
  by pat_completeness auto
termination
  by (relation "measure (\<lambda>(bits, file_output). length bits)") (auto simp: BYTE_LENGTH_def)

declare flush_bytes.simps [simp del]

text \<open>The \<open>for char\<close> loop. A character that is no key of the \<open>defaultdict\<close> yields
  the empty list, and adding a list to the string \<open>bits\<close> is a \<open>TypeError\<close>.\<close>

fun pack_chars ::
  "symbol list \<Rightarrow> encoder \<Rightarrow> string \<Rightarrow> byte list \<Rightarrow> byte list \<times> (error + string)" where
  "pack_chars [] encoder bits file_output = (file_output, Inr bits)"
| "pack_chars (char # cs) encoder bits file_output =
     (case map_of encoder char of
        None \<Rightarrow> (file_output, Inl TypeError)
      | Some code \<Rightarrow>
          (case flush_bytes (bits @ code) file_output of
             (file_output', Inl e) \<Rightarrow> (file_output', Inl e)
           | (file_output', Inr bits') \<Rightarrow> pack_chars cs encoder bits' file_output'))"

definition pack_data :: "symbol list \<Rightarrow> byte list \<Rightarrow> encoder \<Rightarrow> byte list \<times> error option" where
  "pack_data file_input file_output encoder =
     (case pack_chars file_input encoder [] file_output of
        (out, Inl e) \<Rightarrow> (out, Some e)
      | (out, Inr bits) \<Rightarrow>
          if bits \<noteq> [] then
            (case int2 (ljust BYTE_LENGTH CHR ''0'' bits) of
               Inl e \<Rightarrow> (out, Some e)
             | Inr n \<Rightarrow>
                 (case to_byte n of
                    Inl e \<Rightarrow> (out, Some e)
                  | Inr byte \<Rightarrow> (out @ [byte], None)))
          else (out, None))"

text \<open>\<open>pack\<close>: \<open>None\<close> when \<open>encode\<close> does not return; otherwise the output file and
  the exception raised, if any. \<open>encode\<close> runs before the output file is opened.\<close>

definition pack :: "symbol list \<Rightarrow> (byte list \<times> error option) option" where
  "pack finput =
     (case frequency finput of
        (input_size, frequency_data) \<Rightarrow>
          (case encode frequency_data of
             None \<Rightarrow> None
           | Some (Inl e) \<Rightarrow> Some ([], Some e)
           | Some (Inr encoder) \<Rightarrow>
               (case pack_metadata [] encoder input_size frequency_data of
                  (fout, Some e) \<Rightarrow> Some (fout, Some e)
                | (fout, None) \<Rightarrow> Some (pack_data finput fout encoder))))"

subsection \<open>\<open>unpack_metadata\<close>, \<open>unpack_data\<close>, \<open>unpack\<close>\<close>

text \<open>The \<open>while decoder_size > 0\<close> loop; it returns the rest of the file too.\<close>

function unpack_entries ::
  "int \<Rightarrow> byte list \<Rightarrow> (string \<rightharpoonup> symbol) \<Rightarrow> nat set
   \<Rightarrow> byte list \<times> (string \<rightharpoonup> symbol) \<times> nat set" where
  "unpack_entries decoder_size file_input decoder val_lens =
     (if decoder_size > 0 then
        (case read1 file_input of (kb, f1) \<Rightarrow>
         case read1 f1 of (lb, f2) \<Rightarrow>
         case read1 f2 of (vb, f3) \<Rightarrow>
           let key = from_byte kb;
               val_len = from_byte lb;
               val = rjust val_len CHR ''0'' (bin_digits (from_byte vb))
           in unpack_entries (decoder_size - 3) f3 (decoder(val \<mapsto> key)) (insert val_len val_lens))
      else (file_input, decoder, val_lens))"
  by pat_completeness auto
termination
  by (relation "measure (\<lambda>(decoder_size, file_input, decoder, val_lens). nat decoder_size)") auto

declare unpack_entries.simps [simp del]

definition unpack_metadata ::
  "byte list \<Rightarrow> nat \<times> (string \<rightharpoonup> symbol) \<times> nat set \<times> byte list" where
  "unpack_metadata file_input =
     (case read1 file_input of (nb, f1) \<Rightarrow>
      case read1 f1 of (tb, f2) \<Rightarrow>
      case unpack_entries (3 * int (from_byte nb)) f2 Map.empty {} of
        (f3, decoder, val_lens) \<Rightarrow> (from_byte tb, decoder, val_lens, f3))"

text \<open>The \<open>for bit in byte\<close> loop; the state is \<open>(bits, input_size, file_output)\<close>. The
  \<open>break\<close> leaves the loop with the rest of the byte unread; \<open>b\<close> is \<open>bit\<close>.\<close>

fun unpack_bits ::
  "string \<Rightarrow> (string \<rightharpoonup> symbol) \<Rightarrow> nat set \<Rightarrow> string \<times> int \<times> symbol list
   \<Rightarrow> string \<times> int \<times> symbol list" where
  "unpack_bits [] decoder val_lens st = st"
| "unpack_bits (b # rest) decoder val_lens (bits, input_size, file_output) =
     (if length (bits @ [b]) \<in> val_lens then
        (case decoder (bits @ [b]) of
           Some decoded_elt \<Rightarrow>
             if input_size - 1 = 0 then ([], input_size - 1, file_output @ [decoded_elt])
             else unpack_bits rest decoder val_lens ([], input_size - 1, file_output @ [decoded_elt])
         | None \<Rightarrow> unpack_bits rest decoder val_lens (bits @ [b], input_size, file_output))
      else unpack_bits rest decoder val_lens (bits @ [b], input_size, file_output))"

text \<open>The \<open>while byte\<close> loop: one byte at a time, to the end of the file.\<close>

fun unpack_bytes ::
  "byte list \<Rightarrow> (string \<rightharpoonup> symbol) \<Rightarrow> nat set \<Rightarrow> string \<times> int \<times> symbol list
   \<Rightarrow> string \<times> int \<times> symbol list" where
  "unpack_bytes [] decoder val_lens st = st"
| "unpack_bytes (byte # file_input) decoder val_lens st =
     unpack_bytes file_input decoder val_lens
       (unpack_bits (rjust BYTE_LENGTH CHR ''0'' (bin_digits (unat byte))) decoder val_lens st)"

definition unpack_data ::
  "byte list \<Rightarrow> int \<Rightarrow> (string \<rightharpoonup> symbol) \<Rightarrow> nat set \<Rightarrow> symbol list" where
  "unpack_data file_input input_size decoder val_lens =
     (case unpack_bytes file_input decoder val_lens ([], input_size, []) of
        (bits, remaining, file_output) \<Rightarrow> file_output)"

definition unpack :: "byte list \<Rightarrow> symbol list" where
  "unpack finput =
     (case unpack_metadata finput of
        (input_size, decoder, val_lens, fin) \<Rightarrow> unpack_data fin (int input_size) decoder val_lens)"

subsection \<open>Predicates used in the statements\<close>

text \<open>A stack whose top range is empty and starts at \<open>- 1\<close> or above: the general case
  of the loop then splits nothing and pushes \<open>(start, - 2)\<close> again.\<close>

definition bad_stack :: "(int \<times> int) list \<Rightarrow> bool" where
  "bad_stack stack = (case stack of [] \<Rightarrow> False | (s, e) # rest \<Rightarrow> e < s \<and> - 1 \<le> s)"

text \<open>A table entry that \<open>pack_metadata\<close> can write: the symbol, the length and the
  value of the codeword each fit in one byte, and the codeword is a non-empty binary
  string. \<open>entry_bytes\<close> is the triple written for it, \<open>decoder_of\<close> the dictionary that
  reading such triples in order builds.\<close>

definition entry_ok :: "symbol \<times> string \<Rightarrow> bool" where
  "entry_ok kv = (fst kv < 256 \<and> length (snd kv) < 256 \<and> snd kv \<noteq> [] \<and> list_all is_bit (snd kv)
                  \<and> bin_value (snd kv) < 256)"

definition entry_bytes :: "symbol \<times> string \<Rightarrow> byte list" where
  "entry_bytes kv = [of_nat (fst kv), of_nat (length (snd kv)), of_nat (bin_value (snd kv))]"

fun decoder_of :: "encoder \<Rightarrow> (string \<rightharpoonup> symbol) \<Rightarrow> (string \<rightharpoonup> symbol)" where
  "decoder_of [] d = d"
| "decoder_of ((k, v) # rest) d = decoder_of rest (d(v \<mapsto> k))"

text \<open>The eight bits that \<open>unpack_data\<close> reads from a byte; the codeword of a character
  (the empty list of a \<open>defaultdict\<close> for a character that is no key); the bits that
  \<open>pack_data\<close> accumulates for an input.\<close>

definition byte_bits :: "byte \<Rightarrow> string" where
  "byte_bits b = rjust BYTE_LENGTH CHR ''0'' (bin_digits (unat b))"

definition code_of :: "encoder \<Rightarrow> symbol \<Rightarrow> string" where
  "code_of enc c = (case map_of enc c of None \<Rightarrow> [] | Some v \<Rightarrow> v)"

definition payload_bits :: "encoder \<Rightarrow> symbol list \<Rightarrow> string" where
  "payload_bits enc cs = concat (map (code_of enc) cs)"

text \<open>Notions for the analysis of \<open>encode\<close>: the symbol and the probability at an index
  of the frequency list, sums of probabilities over an index range, the side of the split
  an index falls on, well-formed tables and stacks, and the invariant of the loop (two
  codewords are incomparable, or equal with both indices in one range of the stack).
  \<open>freq_ok\<close>: probabilities are positive and non-increasing, as \<open>frequency\<close> yields them.\<close>

definition sym_at :: "freq list \<Rightarrow> int \<Rightarrow> symbol" where
  "sym_at fd i = fst (fd ! nat i)"

definition prob_at :: "freq list \<Rightarrow> int \<Rightarrow> rat" where
  "prob_at fd i = snd (fd ! nat i)"

definition range_sum :: "freq list \<Rightarrow> int \<Rightarrow> int \<Rightarrow> rat" where
  "range_sum fd i j = sum_list (map (prob_at fd) [i..j])"

definition table_ok :: "encoder \<Rightarrow> bool" where
  "table_ok enc = (distinct (map fst enc) \<and> (\<forall>kv \<in> set enc. snd kv \<noteq> [] \<and> list_all is_bit (snd kv)))"

definition side :: "freq list \<Rightarrow> rat \<Rightarrow> rat \<Rightarrow> int \<Rightarrow> int \<Rightarrow> char" where
  "side fd half part i t = (if part + range_sum fd i (t - 1) \<le> half then CHR ''0'' else CHR ''1'')"

definition freq_ok :: "freq list \<Rightarrow> bool" where
  "freq_ok fd = ((\<forall>cp \<in> set fd. 0 < snd cp) \<and> sorted_wrt (\<lambda>a b. snd b \<le> snd a) fd)"

definition incomp :: "string \<Rightarrow> string \<Rightarrow> bool" where
  "incomp a b = (\<not> prefix a b \<and> \<not> prefix b a)"

definition pair_inv :: "nat \<Rightarrow> (int \<Rightarrow> string) \<Rightarrow> (int \<times> int) list \<Rightarrow> bool" where
  "pair_inv n cf stack =
     (\<forall>i j. 0 \<le> i \<and> i < j \<and> j < int n \<longrightarrow>
        incomp (cf i) (cf j) \<or> (cf i = cf j \<and> (\<exists>r \<in> set stack. fst r \<le> i \<and> j \<le> snd r)))"

definition stack_ok :: "nat \<Rightarrow> (int \<times> int) list \<Rightarrow> bool" where
  "stack_ok n stack =
     ((\<forall>r \<in> set stack. 0 \<le> fst r \<and> fst r \<le> snd r \<and> snd r < int n)
      \<and> sorted_wrt (\<lambda>a b. snd a < fst b) stack)"

definition stack_measure :: "(int \<times> int) list \<Rightarrow> nat" where
  "stack_measure stack = sum_list (map (\<lambda>r. nat (2 * (snd r - fst r) + 1)) stack)"

definition enc_inv :: "freq list \<Rightarrow> encoder \<Rightarrow> (int \<times> int) list \<Rightarrow> bool" where
  "enc_inv fd enc stack =
     (table_ok enc \<and> fst ` set enc \<subseteq> fst ` set fd \<and> stack_ok (length fd) stack
      \<and> pair_inv (length fd) (\<lambda>t. code_of enc (sym_at fd t)) stack)"

definition loop_inv :: "freq list \<Rightarrow> encoder \<Rightarrow> (int \<times> int) list \<Rightarrow> bool" where
  "loop_inv fd enc stack =
     (stack_ok (length fd) stack \<and> (distinct (map fst fd) \<longrightarrow> enc_inv fd enc stack))"

definition prefix_code :: "encoder \<Rightarrow> bool" where
  "prefix_code enc =
     (\<forall>kv \<in> set enc. \<forall>kv' \<in> set enc. fst kv \<noteq> fst kv' \<longrightarrow> \<not> prefix (snd kv) (snd kv'))"

text \<open>The decoding dictionary as an association list, and the invariant of the decoding
  loops: the bits buffered and still to come are the codewords of the symbols not yet
  written, followed by fewer than eight padding zeros, and the buffer is a proper prefix of
  the next codeword.\<close>

definition swap_table :: "encoder \<Rightarrow> (string \<times> symbol) list" where
  "swap_table enc = map (\<lambda>(k, v). (v, k)) enc"

definition dec_inv ::
  "encoder \<Rightarrow> symbol list \<Rightarrow> string \<Rightarrow> int \<Rightarrow> symbol list \<Rightarrow> string \<Rightarrow> bool" where
  "dec_inv enc xs buf r out future =
     (\<exists>ys k. buf @ future = payload_bits enc ys @ replicate k CHR ''0'' \<and> k < 8
        \<and> r = int (length ys) \<and> out @ ys = xs \<and> ys \<noteq> []
        \<and> length buf < length (code_of enc (hd ys)))"

section \<open>Bytes and binary strings\<close>

lemma unat_byte_of_nat: "n < 256 \<Longrightarrow> unat (of_nat n :: byte) = n"
  by (simp add: unat_of_nat)

lemma from_byte_single [simp]: "from_byte [b] = unat b"
  by (simp add: from_byte_def)

lemma from_byte_Nil [simp]: "from_byte [] = 0"
  by (simp add: from_byte_def)

lemma to_byte_Inr: "to_byte n = Inr b \<longleftrightarrow> n < 256 \<and> b = of_nat n"
  by (auto simp: to_byte_def)

lemma bin_value_Nil [simp]: "bin_value [] = 0"
  by (simp add: bin_value_def)

lemma bin_value_snoc [simp]: "bin_value (s @ [c]) = 2 * bin_value s + bit_val c"
  by (simp add: bin_value_def)

lemma bin_value_single [simp]: "bin_value [c] = bit_val c"
  by (simp add: bin_value_def)

lemma bit_val_less: "bit_val c < 2"
  by (simp add: bit_val_def)

lemma bit_char_bit_val: "is_bit c \<Longrightarrow> bit_char (bit_val c) = c"
  by (auto simp: is_bit_def bit_char_def bit_val_def)

lemma bin_value_less: "bin_value s < 2 ^ length s"
proof (induction s rule: rev_induct)
  case Nil
  show ?case by simp
next
  case (snoc c s)
  with bit_val_less[of c] show ?case by simp
qed

lemma bin_value_zero:
  "list_all is_bit s \<Longrightarrow> bin_value s = 0 \<Longrightarrow> s = replicate (length s) CHR ''0''"
proof (induction s rule: rev_induct)
  case Nil
  show ?case by simp
next
  case (snoc c s)
  then have "bin_value s = 0" and "bit_val c = 0" and "is_bit c" and "list_all is_bit s"
    by simp_all
  have s: "s = replicate (length s) CHR ''0''"
    using snoc.IH \<open>list_all is_bit s\<close> \<open>bin_value s = 0\<close> by simp
  have "c = CHR ''0''"
    using \<open>bit_val c = 0\<close> \<open>is_bit c\<close> by (auto simp: is_bit_def bit_val_def split: if_splits)
  have "s @ [c] = replicate (length s) CHR ''0'' @ [CHR ''0'']"
    using s \<open>c = CHR ''0''\<close> by simp
  then show ?case
    by (simp add: replicate_append_same)
qed

lemma bin_digits_double:
  "b < 2 \<Longrightarrow> bin_digits (2 * v + b) =
     (if v = 0 then [bit_char b] else bin_digits v @ [bit_char b])"
  by (subst bin_digits.simps) auto

lemma bin_digits_bit: "b < 2 \<Longrightarrow> bin_digits b = [bit_char b]"
  by (subst bin_digits.simps) simp

lemma rjust_bin_digits:
  "s \<noteq> [] \<Longrightarrow> list_all is_bit s \<Longrightarrow> rjust (length s) CHR ''0'' (bin_digits (bin_value s)) = s"
proof (induction s rule: rev_nonempty_induct)
  case (single c)
  then show ?case
    by (simp add: bin_digits_bit bit_val_less rjust_def bit_char_bit_val)
next
  case (snoc c s)
  then have bits: "list_all is_bit s" and c: "is_bit c" by simp_all
  show ?case
  proof (cases "bin_value s = 0")
    case True
    with bits have "s = replicate (length s) CHR ''0''" by (simp add: bin_value_zero)
    then have "replicate (length s) CHR ''0'' = s" by simp
    with True c show ?thesis
      by (simp add: bin_digits_bit bit_val_less rjust_def bit_char_bit_val)
  next
    case False
    have "rjust (length s) CHR ''0'' (bin_digits (bin_value s)) = s"
      using snoc.IH bits by simp
    with False c show ?thesis
      by (simp add: bin_digits_double bit_val_less rjust_def bit_char_bit_val)
  qed
qed

section \<open>The empty input\<close>

lemma encode_loop_bad_stack:
  assumes "encode_loop fd enc stack = Some y"
  shows "\<not> bad_stack stack"
proof (rule encode_loop.raw_induct[where P = "\<lambda>fd enc stack y. \<not> bad_stack stack", OF _ assms],
    goal_cases)
  case (1 loop fd enc stack y)
  show ?case
  proof
    assume b: "bad_stack stack"
    then obtain s e rest where st: "stack = (s, e) # rest" and lt: "e < s" and s: "- 1 \<le> s"
      by (auto simp: bad_stack_def split: list.splits)
    have up: "[s..e] = []" using lt by simp
    from 1(2) st lt s up
    have "loop fd enc ((s, - 1 - 1) # (- 1, e) # rest) = Some y"
      by (simp split: if_splits)
    from 1(1)[OF this] s show False by (simp add: bad_stack_def)
  qed
qed

lemma encode_Nil: "encode [] = None"
proof (cases "encode []")
  case (Some y)
  then have "\<not> bad_stack [(0, - 1)]"
    unfolding encode_def using encode_loop_bad_stack by simp
  then show ?thesis by (simp add: bad_stack_def)
qed simp

text \<open>
  Claim C4 says that \<open>pack\<close> terminates on the empty input and writes the header
  \<open>N = 0\<close>, \<open>T = 0\<close>. In the code, \<open>encode\<close> starts from the range \<open>(0, - 1)\<close>, which is
  neither a single element nor a pair, splits the empty range and pushes \<open>(0, - 2)\<close>, and
  from then on pushes \<open>(0, - 2)\<close> for ever: \<open>pack\<close> never returns and writes nothing.
  Only the second half of the claim holds: \<open>unpack\<close> on the two-byte file \<open>0, 0\<close> writes
  nothing.
\<close>

theorem pack_empty_diverges: "pack [] = None \<and> unpack [0, 0] = []"
proof
  show "pack [] = None"
    by (simp add: pack_def frequency_def most_common_def encode_Nil)
  show "unpack [0, 0] = []"
    by code_simp
qed

section \<open>The metadata codec\<close>

lemma if_fun_upd: "(\<lambda>a. if a = v then Some k else d a) = d(v \<mapsto> k)"
  by auto

lemma entry_ok_pair [simp]:
  "entry_ok (k, v) \<longleftrightarrow>
     k < 256 \<and> length v < 256 \<and> v \<noteq> [] \<and> list_all is_bit v \<and> bin_value v < 256"
  by (simp add: entry_ok_def)

lemma entry_bytes_pair [simp]:
  "entry_bytes (k, v) = [of_nat k, of_nat (length v), of_nat (bin_value v)]"
  by (simp add: entry_bytes_def)

lemma pack_entries_ok:
  "list_all entry_ok enc \<Longrightarrow>
   pack_entries enc out = (out @ concat (map entry_bytes enc), None)"
proof (induction enc arbitrary: out)
  case Nil
  show ?case by simp
next
  case (Cons kv enc)
  obtain k v where kv: "kv = (k, v)" by (cases kv)
  from Cons.prems kv have ok: "k < 256" "length v < 256" "v \<noteq> []" "list_all is_bit v" "bin_value v < 256"
    and rest: "list_all entry_ok enc"
    by simp_all
  show ?case
    using ok Cons.IH[OF rest] by (simp add: kv to_byte_def int2_def)
qed

lemma pack_entries_None_ok:
  "pack_entries enc out = (out', None) \<Longrightarrow> list_all entry_ok enc"
proof (induction enc arbitrary: out)
  case Nil
  show ?case by simp
next
  case (Cons kv enc)
  obtain k v where kv: "kv = (k, v)" by (cases kv)
  from Cons.prems show ?case
    unfolding kv
    by (auto simp: to_byte_def int2_def split: if_splits sum.splits dest: Cons.IH)
qed

lemma unpack_entries_ok:
  "list_all entry_ok enc \<Longrightarrow>
   unpack_entries (3 * int (length enc)) (concat (map entry_bytes enc) @ rest) dec lens =
     (rest, decoder_of enc dec, lens \<union> (length \<circ> snd) ` set enc)"
proof (induction enc arbitrary: dec lens)
  case Nil
  show ?case by (simp add: unpack_entries.simps)
next
  case (Cons kv enc)
  obtain k v where kv: "kv = (k, v)" by (cases kv)
  from Cons.prems kv have ok: "k < 256" "length v < 256" "v \<noteq> []" "list_all is_bit v" "bin_value v < 256"
    and rest: "list_all entry_ok enc"
    by simp_all
  have step: "3 * int (Suc (length enc)) - 3 = 3 * int (length enc)" by simp
  show ?case
    apply (subst unpack_entries.simps)
    using ok
    by (simp add: kv unat_byte_of_nat rjust_bin_digits step if_fun_upd Cons.IH[OF rest] del: of_nat_Suc)
qed

lemma fold_update_map_of:
  "decoder_of enc dec = dec ++ map_of (rev (map (\<lambda>(k, v). (v, k)) enc))"
proof (induction enc arbitrary: dec)
  case Nil
  show ?case by simp
next
  case (Cons kv enc)
  obtain k v where kv: "kv = (k, v)" by (cases kv)
  have "dec(v \<mapsto> k) ++ m = (dec ++ m)(v \<mapsto> k) ++ m" for m :: "string \<rightharpoonup> symbol"
    by (auto simp: map_add_def fun_eq_iff split: option.splits)
  then show ?case
    by (simp add: kv Cons.IH if_fun_upd)
qed

lemma map_of_rev_distinct:
  "distinct (map fst xs) \<Longrightarrow> map_of (rev xs) = map_of xs"
  by (subst map_of_inject_set) (simp_all add: rev_map[symmetric])


lemma decoder_of_distinct:
  assumes "distinct (map snd enc)"
  shows "decoder_of enc Map.empty = map_of (map (\<lambda>(k, v). (v, k)) enc)"
proof -
  have "map fst (map (\<lambda>(k, v). (v, k)) enc) = map snd enc"
    by (induction enc) auto
  with assms have "distinct (map fst (map (\<lambda>(k, v). (v, k)) enc))" by (simp only:)
  then show ?thesis
    by (simp add: fold_update_map_of map_of_rev_distinct)
qed


lemma bin_value_less_256: "length v \<le> 8 \<Longrightarrow> bin_value v < 256"
proof -
  assume "length v \<le> 8"
  then have "(2::nat) ^ length v \<le> 2 ^ 8" by (intro power_increasing) simp_all
  with bin_value_less[of v] show ?thesis by simp
qed


lemma unpack_metadata_ok:
  assumes "length enc < 256" "input_size < 256" "list_all entry_ok enc"
  shows "unpack_metadata ([of_nat (length enc), of_nat input_size] @ concat (map entry_bytes enc) @ payload) =
           (input_size, decoder_of enc Map.empty, (length \<circ> snd) ` set enc, payload)"
  using assms by (simp add: unpack_metadata_def unat_byte_of_nat unpack_entries_ok)



section \<open>The payload written by \<open>pack_data\<close>\<close>

lemma byte_of_bits:
  assumes "length s = 8" "list_all is_bit s"
  shows "int2 s = Inr (bin_value s)" "to_byte (bin_value s) = Inr (of_nat (bin_value s))"
    "byte_bits (of_nat (bin_value s)) = s"
proof -
  from assms have ne: "s \<noteq> []" by auto
  with assms show "int2 s = Inr (bin_value s)" by (simp add: int2_def)
  have lt: "bin_value s < 256" using assms(1) by (simp add: bin_value_less_256)
  then show "to_byte (bin_value s) = Inr (of_nat (bin_value s))" by (simp add: to_byte_def)
  show "byte_bits (of_nat (bin_value s)) = s"
    using rjust_bin_digits[OF ne assms(2)] assms(1) lt
    by (simp add: byte_bits_def BYTE_LENGTH_def unat_byte_of_nat)
qed

lemma flush_bytes_ok:
  "list_all is_bit bits \<Longrightarrow>
   \<exists>bs bits'. flush_bytes bits out = (out @ bs, Inr bits')
      \<and> concat (map byte_bits bs) @ bits' = bits
      \<and> length bits' \<le> 8 \<and> (bits \<noteq> [] \<longrightarrow> bits' \<noteq> [])"
proof (induction bits out rule: flush_bytes.induct)
  case (1 bits out)
  show ?case
  proof (cases "length bits > BYTE_LENGTH")
    case False
    then show ?thesis
      by (subst flush_bytes.simps) (simp add: BYTE_LENGTH_def)
  next
    case True
    let ?h = "take BYTE_LENGTH bits" and ?t = "drop BYTE_LENGTH bits"
    have h: "length ?h = 8" "list_all is_bit ?h" and t: "list_all is_bit ?t" "?t \<noteq> []"
      using True "1.prems" by (auto simp: BYTE_LENGTH_def list_all_iff dest: in_set_takeD in_set_dropD)
    note b = byte_of_bits[OF h]
    from "1.IH"[OF True b(1) b(2) t(1)]
    obtain bs bits' where r: "flush_bytes ?t (out @ [of_nat (bin_value ?h)]) = ((out @ [of_nat (bin_value ?h)]) @ bs, Inr bits')"
      "concat (map byte_bits bs) @ bits' = ?t" "length bits' \<le> 8" "bits' \<noteq> []"
      using t(2) by blast
    have "flush_bytes bits out = (out @ (of_nat (bin_value ?h) # bs), Inr bits')"
      by (subst flush_bytes.simps) (use True b r(1) in simp)
    moreover have "concat (map byte_bits (of_nat (bin_value ?h) # bs)) @ bits' = bits"
      using b(3) r(2) by simp
    ultimately show ?thesis using r(3,4) by blast
  qed
qed


lemma length_bin_digits: "n < 2 ^ k \<Longrightarrow> 0 < k \<Longrightarrow> length (bin_digits n) \<le> k"
proof (induction n arbitrary: k rule: bin_digits.induct)
  case (1 n)
  show ?case
  proof (cases "n < 2")
    case True
    with "1.prems" show ?thesis by (subst bin_digits.simps) simp
  next
    case False
    obtain j where k: "k = Suc j" using "1.prems"(2) by (cases k) auto
    from False "1.prems"(1) k have j: "0 < j" by (cases j) auto
    from "1.prems"(1) k have "n div 2 < 2 ^ j" by auto
    from "1.IH"[OF False this j] False k show ?thesis
      by (subst bin_digits.simps) simp
  qed
qed

lemma length_byte_bits [simp]: "length (byte_bits b) = 8"
proof -
  have "unat b < 2 ^ 8" using unsigned_less[of b] by simp
  then have "length (bin_digits (unat b)) \<le> 8" by (rule length_bin_digits) simp
  then show ?thesis by (simp add: byte_bits_def rjust_def BYTE_LENGTH_def)
qed

lemma length_concat_byte_bits [simp]: "length (concat (map byte_bits bs)) = 8 * length bs"
  by (induction bs) simp_all

lemma pack_chars_ok:
  assumes bin: "\<forall>c v. map_of enc c = Some v \<longrightarrow> list_all is_bit v"
  shows "\<forall>c \<in> set cs. map_of enc c \<noteq> None \<Longrightarrow> list_all is_bit bits \<Longrightarrow> length bits \<le> 8 \<Longrightarrow>
   \<exists>bs bits'. pack_chars cs enc bits out = (out @ bs, Inr bits')
      \<and> concat (map byte_bits bs) @ bits' = bits @ payload_bits enc cs
      \<and> length bits' \<le> 8 \<and> (payload_bits enc cs \<noteq> [] \<longrightarrow> bits' \<noteq> [])
      \<and> (payload_bits enc cs = [] \<longrightarrow> bits' = bits \<and> bs = [])"
proof (induction cs arbitrary: bits out)
  case Nil
  then show ?case by (simp add: payload_bits_def)
next
  case (Cons c cs)
  then obtain v where v: "map_of enc c = Some v" by auto
  have vb: "list_all is_bit v" using bin v by blast
  with Cons.prems have "list_all is_bit (bits @ v)" by simp
  from flush_bytes_ok[OF this, of out]
  obtain bs1 bits1 where f: "flush_bytes (bits @ v) out = (out @ bs1, Inr bits1)"
    "concat (map byte_bits bs1) @ bits1 = bits @ v" "length bits1 \<le> 8" "bits @ v \<noteq> [] \<longrightarrow> bits1 \<noteq> []"
    by blast
  have b1: "list_all is_bit bits1"
  proof -
    have "set bits1 \<subseteq> set (bits @ v)" unfolding f(2)[symmetric] by auto
    with \<open>list_all is_bit (bits @ v)\<close> show ?thesis unfolding list_all_iff by blast
  qed
  from Cons.prems have keys: "\<forall>c \<in> set cs. map_of enc c \<noteq> None" by simp
  from Cons.IH[OF keys b1 f(3), of "out @ bs1"]
  obtain bs2 bits2 where r: "pack_chars cs enc bits1 (out @ bs1) = ((out @ bs1) @ bs2, Inr bits2)"
    "concat (map byte_bits bs2) @ bits2 = bits1 @ payload_bits enc cs" "length bits2 \<le> 8"
    "payload_bits enc cs \<noteq> [] \<longrightarrow> bits2 \<noteq> []"
    "payload_bits enc cs = [] \<longrightarrow> bits2 = bits1 \<and> bs2 = []"
    by blast
  have p: "payload_bits enc (c # cs) = v @ payload_bits enc cs"
    by (simp add: payload_bits_def code_of_def v)
  have 1: "pack_chars (c # cs) enc bits out = (out @ (bs1 @ bs2), Inr bits2)"
    using v f(1) r(1) by simp
  have 2: "concat (map byte_bits (bs1 @ bs2)) @ bits2 = bits @ payload_bits enc (c # cs)"
    using f(2) r(2) p by (metis append.assoc concat_append map_append)
  have 3: "payload_bits enc (c # cs) \<noteq> [] \<longrightarrow> bits2 \<noteq> []"
  proof (cases "payload_bits enc cs = []")
    case True
    with r(5) f(3) have "bits2 = bits1" by simp
    with f(4) p True show ?thesis by auto
  next
    case False
    with r(4) show ?thesis by simp
  qed
  have 4: "payload_bits enc (c # cs) = [] \<longrightarrow> bits2 = bits \<and> bs1 @ bs2 = []"
  proof (intro impI)
    note l = Cons.prems(3)
    assume e: "payload_bits enc (c # cs) = []"
    with p have ve: "v = []" and pe: "payload_bits enc cs = []" by simp_all
    have "flush_bytes (bits @ v) out = (out, Inr bits)"
      using l ve by (subst flush_bytes.simps) (simp add: BYTE_LENGTH_def)
    with f(1) have "bs1 = []" "bits1 = bits" by simp_all
    with r(5) f(3) pe show "bits2 = bits \<and> bs1 @ bs2 = []" by simp
  qed
  from 1 2 3 4 r(3) show ?case by blast
qed

lemma pack_chars_Inr_keys:
  "pack_chars cs enc bits out = (out', Inr b) \<Longrightarrow> \<forall>c \<in> set cs. map_of enc c \<noteq> None"
  by (induction cs arbitrary: bits out) (auto split: option.splits prod.splits sum.splits)

lemma pack_data_None_keys:
  "pack_data cs out enc = (out', None) \<Longrightarrow> \<forall>c \<in> set cs. map_of enc c \<noteq> None"
  unfolding pack_data_def
  by (auto split: prod.splits sum.splits if_splits dest: pack_chars_Inr_keys)

lemma pack_data_ok:
  assumes bin: "\<forall>c v. map_of enc c = Some v \<longrightarrow> list_all is_bit v"
    and keys: "\<forall>c \<in> set cs. map_of enc c \<noteq> None"
  shows "\<exists>bs k. pack_data cs out enc = (out @ bs, None)
      \<and> concat (map byte_bits bs) = payload_bits enc cs @ replicate k CHR ''0'' \<and> k < 8"
proof -
  from pack_chars_ok[where enc=enc and cs=cs and bits="[]" and out=out, OF bin keys]
  obtain bs bits' where r: "pack_chars cs enc [] out = (out @ bs, Inr bits')"
    "concat (map byte_bits bs) @ bits' = payload_bits enc cs" "length bits' \<le> 8"
    "payload_bits enc cs \<noteq> [] \<longrightarrow> bits' \<noteq> []"
    by auto
  show ?thesis
  proof (cases "bits' = []")
    case True
    with r have "pack_data cs out enc = (out @ bs, None)"
      "concat (map byte_bits bs) = payload_bits enc cs @ replicate 0 CHR ''0''"
      by (simp_all add: pack_data_def)
    moreover have "(0::nat) < 8" by simp
    ultimately show ?thesis by blast
  next
    case False
    let ?p = "ljust BYTE_LENGTH CHR ''0'' bits'"
    have b: "list_all is_bit bits'"
    proof -
      have "set bits' \<subseteq> set (payload_bits enc cs)" unfolding r(2)[symmetric] by auto
      moreover have "list_all is_bit (payload_bits enc cs)"
        using keys bin by (auto simp: payload_bits_def code_of_def list_all_iff split: option.splits)
      ultimately show ?thesis unfolding list_all_iff by blast
    qed
    have p8: "?p = bits' @ replicate (8 - length bits') CHR ''0''"
      by (simp add: ljust_def BYTE_LENGTH_def)
    have z: "list_all is_bit (replicate n CHR ''0'')" for n
      by (induction n) (simp_all add: is_bit_def)
    have h: "length ?p = 8" "list_all is_bit ?p"
      unfolding p8 using r(3) b z by simp_all
    note y = byte_of_bits[OF h]
    have nb: "bits' \<noteq> []" by (rule False)
    have "pack_data cs out enc = (out @ (bs @ [of_nat (bin_value ?p)]), None)"
      unfolding pack_data_def r(1) using nb y(1,2) by simp
    moreover have "concat (map byte_bits (bs @ [of_nat (bin_value ?p)]))
        = payload_bits enc cs @ replicate (8 - length bits') CHR ''0''"
    proof -
      have "concat (map byte_bits (bs @ [of_nat (bin_value ?p)])) = concat (map byte_bits bs) @ ?p"
        using y(3) by simp
      also have "\<dots> = (concat (map byte_bits bs) @ bits') @ replicate (8 - length bits') CHR ''0''"
        unfolding p8 by simp
      finally show ?thesis unfolding r(2) .
    qed
    moreover have "8 - length bits' < 8" using False by (cases bits') auto
    ultimately show ?thesis by blast
  qed
qed

lemma pack_data_length:
  assumes bin: "\<forall>c v. map_of enc c = Some v \<longrightarrow> list_all is_bit v"
    and ok: "pack_data cs out enc = (out', None)"
  shows "\<exists>bs. out' = out @ bs \<and> length bs = (length (payload_bits enc cs) + 7) div 8"
proof -
  from pack_data_ok[where enc=enc and cs=cs and out=out, OF bin pack_data_None_keys[OF ok]]
  obtain bs k where r: "pack_data cs out enc = (out @ bs, None)"
    "concat (map byte_bits bs) = payload_bits enc cs @ replicate k CHR ''0''" "k < 8"
    by blast
  from r(2) have "length (concat (map byte_bits bs)) = length (payload_bits enc cs) + k"
    by simp
  then have "8 * length bs = length (payload_bits enc cs) + k" by simp
  with r(3) have "length bs = (length (payload_bits enc cs) + 7) div 8" by arith
  with r(1) ok show ?thesis by simp
qed

section \<open>The code table built by \<open>encode\<close>\<close>

lemma py_index_ok: "0 \<le> i \<Longrightarrow> i < int (length fd) \<Longrightarrow> py_index fd i = Inr (sym_at fd i, prob_at fd i)"
  by (simp add: py_index_def sym_at_def prob_at_def)

lemma map_of_append_bit:
  "map_of (append_bit k b enc) k' =
     (if k' = k then Some (code_of enc k @ [b]) else map_of enc k')"
  by (induction enc) (auto simp: code_of_def)

lemma code_of_append_bit:
  "code_of (append_bit k b enc) k' = (if k' = k then code_of enc k @ [b] else code_of enc k')"
  by (simp add: code_of_def map_of_append_bit)

lemma keys_append_bit:
  "fst ` set (append_bit k b enc) = insert k (fst ` set enc)"
proof (induction enc)
  case Nil
  show ?case by simp
next
  case (Cons kv enc)
  obtain k' v where kv: "kv = (k', v)" by (cases kv)
  show ?case
  proof (cases "k' = k")
    case True
    then show ?thesis by (simp add: kv insert_absorb)
  next
    case False
    with Cons.IH show ?thesis by (simp add: kv insert_commute)
  qed
qed

lemma table_ok_append_bit: "table_ok enc \<Longrightarrow> is_bit b \<Longrightarrow> table_ok (append_bit k b enc)"
proof (induction enc)
  case Nil
  then show ?case by (simp add: table_ok_def)
next
  case (Cons kv enc)
  obtain k' v where kv: "kv = (k', v)" by (cases kv)
  from Cons.prems have t: "table_ok enc" and d: "k' \<notin> fst ` set enc" and v: "v \<noteq> []" "list_all is_bit v"
    by (auto simp: table_ok_def kv)
  from Cons.IH[OF t Cons.prems(2)] have a: "table_ok (append_bit k b enc)" .
  show ?case
  proof (cases "k' = k")
    case True
    with Cons.prems v show ?thesis by (auto simp: table_ok_def kv)
  next
    case False
    have "k' \<notin> fst ` set (append_bit k b enc)"
      unfolding keys_append_bit using d False by simp
    with a v False show ?thesis
      by (simp add: table_ok_def kv)
  qed
qed

lemma range_sum_rec: "i \<le> j \<Longrightarrow> range_sum fd i j = prob_at fd i + range_sum fd (i + 1) j"
  by (simp add: range_sum_def upto_rec1[of i j])

lemma range_sum_empty [simp]: "j < i \<Longrightarrow> range_sum fd i j = 0"
  by (simp add: range_sum_def)

lemma sum_range_ok:
  "0 \<le> i \<Longrightarrow> j < int (length fd) \<Longrightarrow> sum_range fd [i..j] acc = Inr (acc + range_sum fd i j)"
proof (induction "nat (j + 1 - i)" arbitrary: i acc)
  case 0
  then show ?case by simp
next
  case (Suc n)
  then have le: "i \<le> j" by linarith
  with Suc.prems have idx: "py_index fd i = Inr (sym_at fd i, prob_at fd i)"
    by (intro py_index_ok) auto
  have "n = nat (j + 1 - (i + 1))" using Suc.hyps(2) by linarith
  from Suc.hyps(1)[OF this, of "acc + prob_at fd i"] Suc.prems
  have "sum_range fd [i + 1..j] (acc + prob_at fd i) = Inr (acc + prob_at fd i + range_sum fd (i + 1) j)"
    by simp
  then show ?case
    using le idx by (simp add: upto_rec1[of i j] range_sum_rec)
qed

lemma upto_induct [consumes 0, case_names empty step]:
  assumes "\<And>i. j < i \<Longrightarrow> P i" and "\<And>i. i \<le> j \<Longrightarrow> P (i + 1) \<Longrightarrow> P i"
  shows "P (i :: int)"
proof (induction "nat (j + 1 - i)" arbitrary: i)
  case 0
  then show ?case by (intro assms(1)) simp
next
  case (Suc n)
  then have "i \<le> j" and "n = nat (j + 1 - (i + 1))" by linarith+
  then show ?case using Suc.hyps(1) assms(2) by blast
qed

lemma is_bit_side [simp]: "is_bit (side fd half part i t)"
  by (simp add: side_def is_bit_def)

lemma side_shift:
  "i < t \<Longrightarrow> side fd half (part + prob_at fd i) (i + 1) t = side fd half part i t"
  by (simp add: side_def range_sum_rec[of i "t - 1"] add.assoc)

lemma side_first: "side fd half part i i = (if part \<le> half then CHR ''0'' else CHR ''1'')"
  by (simp add: side_def)

lemma split_range_step:
  assumes "0 \<le> i" "i \<le> j" "j < int (length fd)"
  shows "split_range fd half [i..j] (part, pidx, enc) =
     split_range fd half [i + 1..j]
       (part + prob_at fd i, (if part \<le> half \<or> 0 \<le> pidx then pidx else i),
        append_bit (sym_at fd i) (side fd half part i i) enc)"
proof -
  have "py_index fd i = Inr (sym_at fd i, prob_at fd i)"
    using assms by (intro py_index_ok) auto
  then show ?thesis
    using assms(2) by (simp add: upto_rec1[of i j] side_first not_le)
qed

lemma split_range_result:
  assumes "0 \<le> i" "j < int (length fd)"
  shows "\<exists>part' pidx' enc'. split_range fd half [i..j] (part, pidx, enc) = Inr (part', pidx', enc')"
  using assms(1)
proof (induction i arbitrary: part pidx enc rule: upto_induct[where j = j])
  case (empty i)
  then show ?case by simp
next
  case (step i)
  have "0 \<le> i + 1" using step.prems by simp
  from step.IH[OF this] show ?case
    unfolding split_range_step[OF step.prems step.hyps assms(2)] .
qed

lemma split_range_table:
  assumes "0 \<le> i" "j < int (length fd)"
    and "split_range fd half [i..j] (part, pidx, enc) = Inr (part', pidx', enc')"
  shows "fst ` set enc' = fst ` set enc \<union> sym_at fd ` {i..j} \<and> (table_ok enc \<longrightarrow> table_ok enc')"
  using assms(1,3)
proof (induction i arbitrary: part pidx enc rule: upto_induct[where j = j])
  case (empty i)
  then show ?case by simp
next
  case (step i)
  have p: "0 \<le> i + 1" using step.prems by simp
  note r = step.prems(2)[unfolded split_range_step[OF step.prems(1) step.hyps assms(2)]]
  from step.IH[OF p r]
  have k: "fst ` set enc' = fst ` set (append_bit (sym_at fd i) (side fd half part i i) enc)
              \<union> sym_at fd ` {i + 1..j}"
    and t: "table_ok (append_bit (sym_at fd i) (side fd half part i i) enc) \<longrightarrow> table_ok enc'"
    by blast+
  have "{i..j} = insert i {i + 1..j}" using step.hyps by auto
  with k have "fst ` set enc' = fst ` set enc \<union> sym_at fd ` {i..j}"
    by (simp add: keys_append_bit)
  moreover have "table_ok enc \<longrightarrow> table_ok enc'"
    using t by (simp add: table_ok_append_bit)
  ultimately show ?case by blast
qed

lemma split_range_codes:
  assumes "0 \<le> i" "j < int (length fd)" "inj_on (sym_at fd) {i..j}"
    and "split_range fd half [i..j] (part, pidx, enc) = Inr (part', pidx', enc')"
  shows "(\<forall>t \<in> {i..j}. code_of enc' (sym_at fd t) = code_of enc (sym_at fd t) @ [side fd half part i t])
       \<and> (\<forall>c. c \<notin> sym_at fd ` {i..j} \<longrightarrow> code_of enc' c = code_of enc c)"
  using assms(1,3,4)
proof (induction i arbitrary: part pidx enc rule: upto_induct[where j = j])
  case (empty i)
  then show ?case by simp
next
  case (step i)
  have p: "0 \<le> i + 1" using step.prems by simp
  have sub: "{i..j} = insert i {i + 1..j}" using step.hyps by auto
  with step.prems(2) have inj: "inj_on (sym_at fd) {i + 1..j}" and fresh: "sym_at fd i \<notin> sym_at fd ` {i + 1..j}"
    by auto
  note r = step.prems(3)[unfolded split_range_step[OF step.prems(1) step.hyps assms(2)]]
  let ?enc = "append_bit (sym_at fd i) (side fd half part i i) enc"
  from step.IH[OF p inj r]
  have a: "\<And>t. t \<in> {i + 1..j} \<Longrightarrow>
        code_of enc' (sym_at fd t) = code_of ?enc (sym_at fd t) @ [side fd half (part + prob_at fd i) (i + 1) t]"
    and b: "\<And>c. c \<notin> sym_at fd ` {i + 1..j} \<Longrightarrow> code_of enc' c = code_of ?enc c"
    by blast+
  have 1: "code_of enc' (sym_at fd t) = code_of enc (sym_at fd t) @ [side fd half part i t]"
    if t: "t \<in> {i..j}" for t
  proof (cases "t = i")
    case True
    then show ?thesis using b[OF fresh] by (simp add: code_of_append_bit)
  next
    case False
    with t have t': "t \<in> {i + 1..j}" and lt: "i < t" by auto
    with fresh have "sym_at fd t \<noteq> sym_at fd i" by (metis imageI)
    then show ?thesis using a[OF t'] by (simp add: code_of_append_bit side_shift[OF lt])
  qed
  have 2: "code_of enc' c = code_of enc c" if "c \<notin> sym_at fd ` {i..j}" for c
  proof -
    from that sub have "c \<notin> sym_at fd ` {i + 1..j}" and "c \<noteq> sym_at fd i" by auto
    then show ?thesis using b by (simp add: code_of_append_bit)
  qed
  from 1 2 show ?case by blast
qed

lemma split_range_pidx_keep:
  assumes "0 \<le> i" "j < int (length fd)" "0 \<le> pidx"
    and "split_range fd half [i..j] (part, pidx, enc) = Inr (part', pidx', enc')"
  shows "pidx' = pidx"
  using assms(1,4)
proof (induction i arbitrary: part enc rule: upto_induct[where j = j])
  case (empty i)
  then show ?case by simp
next
  case (step i)
  have p: "0 \<le> i + 1" using step.prems by simp
  note r = step.prems(2)[unfolded split_range_step[OF step.prems(1) step.hyps assms(2)]]
  from step.IH[OF p] r assms(3) show ?case by simp
qed

lemma split_range_pidx:
  assumes "0 \<le> i" "j < int (length fd)" "pidx < 0"
    and "split_range fd half [i..j] (part, pidx, enc) = Inr (part', pidx', enc')"
  shows "(pidx' = pidx \<and> (\<forall>t \<in> {i..j}. side fd half part i t = CHR ''0''))
       \<or> (i \<le> pidx' \<and> pidx' \<le> j \<and> side fd half part i pidx' = CHR ''1''
            \<and> (\<forall>t \<in> {i..<pidx'}. side fd half part i t = CHR ''0''))"
  using assms(1,4)
proof (induction i arbitrary: part enc rule: upto_induct[where j = j])
  case (empty i)
  then show ?case by simp
next
  case (step i)
  have p: "0 \<le> i + 1" using step.prems by simp
  note r = step.prems(2)[unfolded split_range_step[OF step.prems(1) step.hyps assms(2)]]
  show ?case
  proof (cases "part \<le> half")
    case True
    then have s0: "side fd half part i i = CHR ''0''" by (simp add: side_first)
    from r True have r': "split_range fd half [i + 1..j]
        (part + prob_at fd i, pidx, append_bit (sym_at fd i) (side fd half part i i) enc)
        = Inr (part', pidx', enc')" by simp
    from step.IH[OF p r']
    consider (none) "pidx' = pidx" "\<forall>t \<in> {i + 1..j}. side fd half (part + prob_at fd i) (i + 1) t = CHR ''0''"
      | (some) "i + 1 \<le> pidx'" "pidx' \<le> j" "side fd half (part + prob_at fd i) (i + 1) pidx' = CHR ''1''"
          "\<forall>t \<in> {i + 1..<pidx'}. side fd half (part + prob_at fd i) (i + 1) t = CHR ''0''"
      by blast
    then show ?thesis
    proof cases
      case none
      have "side fd half part i t = CHR ''0''" if "t \<in> {i..j}" for t
      proof (cases "t = i")
        case True
        with s0 show ?thesis by simp
      next
        case False
        with that have "t \<in> {i + 1..j}" "i < t" by auto
        with none(2) show ?thesis by (simp add: side_shift)
      qed
      with none(1) show ?thesis by blast
    next
      case some
      have "side fd half part i t = CHR ''0''" if "t \<in> {i..<pidx'}" for t
      proof (cases "t = i")
        case True
        with s0 show ?thesis by simp
      next
        case False
        with that have "t \<in> {i + 1..<pidx'}" "i < t" by auto
        with some(4) show ?thesis by (simp add: side_shift)
      qed
      moreover have "side fd half part i pidx' = CHR ''1''"
        using some(1,3) by (simp add: side_shift)
      ultimately show ?thesis using some(1,2) by auto
    qed
  next
    case False
    then have s1: "side fd half part i i = CHR ''1''" by (simp add: side_first)
    from r False assms(3) have r': "split_range fd half [i + 1..j]
        (part + prob_at fd i, i, append_bit (sym_at fd i) (side fd half part i i) enc)
        = Inr (part', pidx', enc')" by simp
    have "pidx' = i"
      by (rule split_range_pidx_keep[OF p assms(2) step.prems(1) r'])
    with s1 step.hyps show ?thesis by simp
  qed
qed

lemma range_sum_nonneg:
  "\<forall>t \<in> {i..j}. 0 \<le> prob_at fd t \<Longrightarrow> 0 \<le> range_sum fd i j"
  by (auto simp: range_sum_def intro!: sum_list_nonneg)

lemma range_sum_split:
  "i \<le> k + 1 \<Longrightarrow> k \<le> j \<Longrightarrow> range_sum fd i j = range_sum fd i k + range_sum fd (k + 1) j"
  using upto_split1[of i "k + 1" j] by (cases "k = j") (simp_all add: range_sum_def)

lemma range_sum_mono:
  assumes "\<forall>t \<in> {i..j}. 0 \<le> prob_at fd t" "i \<le> k + 1" "k \<le> j"
  shows "range_sum fd i k \<le> range_sum fd i j"
proof -
  have "0 \<le> range_sum fd (k + 1) j"
    using assms by (intro range_sum_nonneg) auto
  with range_sum_split[OF assms(2,3)] show ?thesis by simp
qed

lemma freq_ok_pos: "freq_ok fd \<Longrightarrow> 0 \<le> t \<Longrightarrow> t < int (length fd) \<Longrightarrow> 0 < prob_at fd t"
  by (simp add: freq_ok_def prob_at_def)

lemma freq_ok_sorted:
  "freq_ok fd \<Longrightarrow> 0 \<le> t \<Longrightarrow> t \<le> t' \<Longrightarrow> t' < int (length fd) \<Longrightarrow> prob_at fd t' \<le> prob_at fd t"
proof -
  assume a: "freq_ok fd" "0 \<le> t" "t \<le> t'" "t' < int (length fd)"
  show ?thesis
  proof (cases "t = t'")
    case True
    then show ?thesis by simp
  next
    case False
    with a have "nat t < nat t'" "nat t' < length fd" by auto
    with a(1) show ?thesis
      by (auto simp: freq_ok_def prob_at_def sorted_wrt_iff_nth_less)
  qed
qed

lemma split_point:
  assumes ok: "freq_ok fd" and s: "0 \<le> s" and e: "e < int (length fd)" and wide: "s + 2 \<le> e"
    and r: "split_range fd (range_sum fd s e * (1/2)) [s..e] (0, - 1, enc) = Inr (part', p, enc')"
  shows "s < p \<and> p \<le> e
       \<and> (\<forall>t \<in> {s..<p}. side fd (range_sum fd s e * (1/2)) 0 s t = CHR ''0'')
       \<and> (\<forall>t \<in> {p..e}. side fd (range_sum fd s e * (1/2)) 0 s t = CHR ''1'')"
proof -
  let ?half = "range_sum fd s e * (1/2)"
  have pos: "\<forall>t \<in> {s..e}. 0 < prob_at fd t"
    using ok s e by (auto intro: freq_ok_pos)
  then have nn: "\<forall>t \<in> {s..e}. 0 \<le> prob_at fd t" by (auto intro: less_imp_le)
  have half0: "0 \<le> ?half" using range_sum_nonneg[OF nn] by simp
  have first: "side fd ?half 0 s s = CHR ''0''"
    using half0 by (simp add: side_first)
  have total: "range_sum fd s e = range_sum fd s (e - 1) + prob_at fd e"
    using range_sum_split[of s "e - 1" e fd] wide by (simp add: range_sum_rec[of e e])
  have front: "range_sum fd s (e - 1) = prob_at fd s + prob_at fd (s + 1) + range_sum fd (s + 2) (e - 1)"
  proof -
    have "s + 1 + 1 = s + 2" by simp
    then show ?thesis
      using wide range_sum_rec[of s "e - 1" fd] range_sum_rec[of "s + 1" "e - 1" fd]
      by (simp add: add.commute[of 2 s])
  qed
  have "0 \<le> range_sum fd (s + 2) (e - 1)"
    using nn by (intro range_sum_nonneg) auto
  moreover have "prob_at fd e \<le> prob_at fd s" "prob_at fd e \<le> prob_at fd (s + 1)"
    using ok s e wide by (auto intro!: freq_ok_sorted)
  moreover have "0 < prob_at fd e" using pos wide by auto
  ultimately have big: "?half < range_sum fd s (e - 1)"
    using total front by simp
  then have last: "side fd ?half 0 s e = CHR ''1''"
    by (simp add: side_def)
  have m1: "- 1 < (0::int)" by simp
  from split_range_pidx[OF s e _ r]
  consider (none) "\<forall>t \<in> {s..e}. side fd ?half 0 s t = CHR ''0''"
    | (some) "s \<le> p" "p \<le> e" "side fd ?half 0 s p = CHR ''1''"
        "\<forall>t \<in> {s..<p}. side fd ?half 0 s t = CHR ''0''"
    by auto
  then show ?thesis
  proof cases
    case none
    with last wide show ?thesis by auto
  next
    case some
    from some(3) first have "p \<noteq> s" by auto
    with some(1) have lt: "s < p" by simp
    have "side fd ?half 0 s t = CHR ''1''" if t: "t \<in> {p..e}" for t
    proof -
      from some(3) have "?half < range_sum fd s (p - 1)"
        by (simp add: side_def split: if_splits)
      also have "range_sum fd s (p - 1) \<le> range_sum fd s (t - 1)"
      proof (rule range_sum_mono)
        show "\<forall>u \<in> {s..t - 1}. 0 \<le> prob_at fd u" using nn t by auto
        show "s \<le> p - 1 + 1" using lt by simp
        show "p - 1 \<le> t - 1" using t by simp
      qed
      finally show ?thesis by (simp add: side_def)
    qed
    with lt some show ?thesis by blast
  qed
qed

lemma incomp_append: "incomp a b \<Longrightarrow> incomp (a @ x) (b @ y)"
proof -
  assume i: "incomp a b"
  have "\<not> prefix (u @ x') (v @ y')" if "\<not> prefix u v" "\<not> prefix v u" for u v x' y' :: string
  proof
    assume "prefix (u @ x') (v @ y')"
    then have "prefix u (v @ y')" by (rule append_prefixD)
    moreover have "prefix v (v @ y')" by simp
    ultimately have "prefix u v \<or> prefix v u" by (rule prefix_same_cases)
    with that show False by blast
  qed
  with i show ?thesis unfolding incomp_def by blast
qed

lemma incomp_bits: "c \<noteq> d \<Longrightarrow> incomp (a @ [c]) (a @ [d])"
  by (simp add: incomp_def)

lemma incomp_sym: "incomp a b \<Longrightarrow> incomp b a"
  by (simp add: incomp_def)

lemma pair_inv_pop:
  assumes "pair_inv n cf ((s, s) # rest)"
  shows "pair_inv n cf rest"
  unfolding pair_inv_def
proof (intro allI impI)
  fix i j :: int
  assume a: "0 \<le> i \<and> i < j \<and> j < int n"
  with assms have "incomp (cf i) (cf j) \<or> (cf i = cf j \<and> (\<exists>r \<in> set ((s, s) # rest). fst r \<le> i \<and> j \<le> snd r))"
    unfolding pair_inv_def by blast
  with a show "incomp (cf i) (cf j) \<or> (cf i = cf j \<and> (\<exists>r \<in> set rest. fst r \<le> i \<and> j \<le> snd r))"
    by auto
qed

lemma pair_inv_step:
  assumes inv: "pair_inv n cf ((s, e) # rest)"
    and ok: "stack_ok n ((s, e) # rest)"
    and upd_in: "\<forall>t \<in> {s..e}. cf' t = cf t @ [bt t]"
    and upd_out: "\<forall>t. 0 \<le> t \<and> t < int n \<and> t \<notin> {s..e} \<longrightarrow> cf' t = cf t"
    and new: "\<forall>t t'. s \<le> t \<and> t < t' \<and> t' \<le> e \<and> bt t = bt t' \<longrightarrow> (\<exists>r \<in> set new. fst r \<le> t \<and> t' \<le> snd r)"
  shows "pair_inv n cf' (new @ rest)"
  unfolding pair_inv_def
proof (intro allI impI)
  fix i j :: int
  assume a: "0 \<le> i \<and> i < j \<and> j < int n"
  with inv have old: "incomp (cf i) (cf j) \<or> (cf i = cf j \<and> (\<exists>r \<in> set ((s, e) # rest). fst r \<le> i \<and> j \<le> snd r))"
    unfolding pair_inv_def by blast
  from ok have right: "\<forall>r \<in> set rest. e < fst r"
    by (auto simp: stack_ok_def)
  let ?goal = "incomp (cf' i) (cf' j) \<or> (cf' i = cf' j \<and> (\<exists>r \<in> set (new @ rest). fst r \<le> i \<and> j \<le> snd r))"
  consider (both) "i \<in> {s..e}" "j \<in> {s..e}" | (left) "i \<in> {s..e}" "j \<notin> {s..e}"
    | (right) "i \<notin> {s..e}" "j \<in> {s..e}" | (none) "i \<notin> {s..e}" "j \<notin> {s..e}"
    by blast
  then show ?goal
  proof cases
    case both
    then have c: "cf' i = cf i @ [bt i]" "cf' j = cf j @ [bt j]" using upd_in by auto
    show ?thesis
    proof (cases "incomp (cf i) (cf j)")
      case True
      then show ?thesis unfolding c by (simp add: incomp_append)
    next
      case False
      with old have eq: "cf i = cf j" by blast
      show ?thesis
      proof (cases "bt i = bt j")
        case True
        with new both a have "\<exists>r \<in> set new. fst r \<le> i \<and> j \<le> snd r" by auto
        with True eq show ?thesis unfolding c by auto
      next
        case False
        then show ?thesis unfolding c eq by (simp add: incomp_bits)
      qed
    qed
  next
    case left
    then have c: "cf' i = cf i @ [bt i]" "cf' j = cf j" using upd_in upd_out a by auto
    have "incomp (cf i) (cf j)"
    proof (rule ccontr)
      assume "\<not> incomp (cf i) (cf j)"
      with old obtain r where r: "r \<in> set ((s, e) # rest)" "fst r \<le> i" "j \<le> snd r" by blast
      with left right a show False by auto
    qed
    from incomp_append[OF this, of "[bt i]" "[]"] show ?thesis unfolding c by simp
  next
    case right
    then have c: "cf' i = cf i" "cf' j = cf j @ [bt j]" using upd_in upd_out a by auto
    have "incomp (cf i) (cf j)"
    proof (rule ccontr)
      assume "\<not> incomp (cf i) (cf j)"
      with old obtain r where r: "r \<in> set ((s, e) # rest)" "fst r \<le> i" "j \<le> snd r" by blast
      with right \<open>\<forall>r \<in> set rest. e < fst r\<close> a show False by auto
    qed
    from incomp_append[OF this, of "[]" "[bt j]"] show ?thesis unfolding c by simp
  next
    case none
    then have c: "cf' i = cf i" "cf' j = cf j" using upd_out a by auto
    show ?thesis
    proof (cases "incomp (cf i) (cf j)")
      case True
      then show ?thesis unfolding c by simp
    next
      case False
      with old obtain r where eq: "cf i = cf j" and r: "r \<in> set ((s, e) # rest)" "fst r \<le> i" "j \<le> snd r"
        by blast
      with none a right have "r \<in> set rest" by auto
      with eq r show ?thesis unfolding c by auto
    qed
  qed
qed

lemma sym_at_inj:
  assumes "distinct (map fst fd)" "0 \<le> t" "t < int (length fd)" "0 \<le> t'" "t' < int (length fd)"
    "sym_at fd t = sym_at fd t'"
  shows "t = t'"
proof -
  have "map fst fd ! nat t = map fst fd ! nat t'"
    using assms by (simp add: sym_at_def)
  moreover have "nat t < length (map fst fd)" "nat t' < length (map fst fd)"
    using assms by simp_all
  ultimately have "nat t = nat t'"
    using assms(1) nth_eq_iff_index_eq by blast
  with assms show ?thesis by simp
qed

lemma sym_at_mem: "0 \<le> t \<Longrightarrow> t < int (length fd) \<Longrightarrow> sym_at fd t \<in> fst ` set fd"
  by (simp add: sym_at_def)

lemma sym_at_inj_on:
  "distinct (map fst fd) \<Longrightarrow> 0 \<le> s \<Longrightarrow> e < int (length fd) \<Longrightarrow> inj_on (sym_at fd) {s..e}"
  by (rule inj_onI) (auto intro: sym_at_inj)

lemma stack_measure_Cons [simp]:
  "stack_measure ((s, e) # rest) = nat (2 * (e - s) + 1) + stack_measure rest"
  by (simp add: stack_measure_def)

lemma stack_ok_tl: "stack_ok n (r # rest) \<Longrightarrow> stack_ok n rest"
  by (simp add: stack_ok_def)

lemma stack_ok_split:
  assumes "stack_ok n ((s, e) # rest)" "s < p" "p \<le> e"
  shows "stack_ok n ((s, p - 1) # (p, e) # rest)"
  using assms by (auto simp: stack_ok_def)

lemma enc_inv_pop:
  assumes "enc_inv fd enc ((s, s) # rest)"
  shows "enc_inv fd enc rest"
  using assms unfolding enc_inv_def
  by (auto intro: pair_inv_pop stack_ok_tl)

lemma enc_inv_pair:
  assumes d: "distinct (map fst fd)" and inv: "enc_inv fd enc ((s, e) # rest)" and e: "e - s = 1"
  shows "enc_inv fd (append_bit (sym_at fd e) CHR ''1'' (append_bit (sym_at fd s) CHR ''0'' enc)) rest"
proof -
  let ?enc = "append_bit (sym_at fd e) CHR ''1'' (append_bit (sym_at fd s) CHR ''0'' enc)"
  from inv have t: "table_ok enc" and k: "fst ` set enc \<subseteq> fst ` set fd"
    and ok: "stack_ok (length fd) ((s, e) # rest)"
    and pi: "pair_inv (length fd) (\<lambda>t. code_of enc (sym_at fd t)) ((s, e) # rest)"
    by (simp_all add: enc_inv_def)
  from ok have v: "0 \<le> s" "e < int (length fd)" by (simp_all add: stack_ok_def)
  with e have vs: "s < int (length fd)" and ve: "0 \<le> e" by simp_all
  have ne: "sym_at fd s \<noteq> sym_at fd e"
    using sym_at_inj[OF d v(1) vs ve v(2)] e by auto
  have 1: "table_ok ?enc"
    by (intro table_ok_append_bit t) (simp_all add: is_bit_def)
  have 2: "fst ` set ?enc \<subseteq> fst ` set fd"
    using k sym_at_mem[OF v(1) vs] sym_at_mem[OF ve v(2)] by (simp add: keys_append_bit)
  have 3: "stack_ok (length fd) rest" using ok by (rule stack_ok_tl)
  have 4: "pair_inv (length fd) (\<lambda>t. code_of ?enc (sym_at fd t)) ([] @ rest)"
  proof (rule pair_inv_step[OF pi ok, where bt = "\<lambda>t. if t = s then CHR ''0'' else CHR ''1''"])
    show "\<forall>t \<in> {s..e}. code_of ?enc (sym_at fd t)
            = code_of enc (sym_at fd t) @ [if t = s then CHR ''0'' else CHR ''1'']"
    proof
      fix t assume "t \<in> {s..e}"
      with e have "t = s \<or> t = e" by auto
      with ne e show "code_of ?enc (sym_at fd t)
            = code_of enc (sym_at fd t) @ [if t = s then CHR ''0'' else CHR ''1'']"
        by (auto simp: code_of_append_bit)
    qed
    show "\<forall>t. 0 \<le> t \<and> t < int (length fd) \<and> t \<notin> {s..e} \<longrightarrow>
            code_of ?enc (sym_at fd t) = code_of enc (sym_at fd t)"
    proof (intro allI impI)
      fix t assume a: "0 \<le> t \<and> t < int (length fd) \<and> t \<notin> {s..e}"
      then have "sym_at fd t \<noteq> sym_at fd s" "sym_at fd t \<noteq> sym_at fd e"
        using sym_at_inj[OF d _ _ v(1) vs, of t] sym_at_inj[OF d _ _ ve v(2), of t] e by auto
      then show "code_of ?enc (sym_at fd t) = code_of enc (sym_at fd t)"
        by (simp add: code_of_append_bit)
    qed
    show "\<forall>t t'. s \<le> t \<and> t < t' \<and> t' \<le> e \<and>
            (if t = s then CHR ''0'' else CHR ''1'') = (if t' = s then CHR ''0'' else CHR ''1'')
            \<longrightarrow> (\<exists>r \<in> set []. fst r \<le> t \<and> t' \<le> snd r)"
      using e by auto
  qed
  from 1 2 3 4 show ?thesis by (simp add: enc_inv_def)
qed

lemma enc_inv_split:
  assumes fo: "freq_ok fd" and d: "distinct (map fst fd)"
    and inv: "enc_inv fd enc ((s, e) # rest)" and wide: "s + 2 \<le> e"
    and r: "split_range fd (range_sum fd s e * (1/2)) [s..e] (0, - 1, enc) = Inr (part', p, enc')"
  shows "s < p \<and> p \<le> e \<and> enc_inv fd enc' ((s, p - 1) # (p, e) # rest)"
proof -
  let ?half = "range_sum fd s e * (1/2)"
  from inv have t: "table_ok enc" and k: "fst ` set enc \<subseteq> fst ` set fd"
    and ok: "stack_ok (length fd) ((s, e) # rest)"
    and pi: "pair_inv (length fd) (\<lambda>t. code_of enc (sym_at fd t)) ((s, e) # rest)"
    by (simp_all add: enc_inv_def)
  from ok have v: "0 \<le> s" "e < int (length fd)" by (simp_all add: stack_ok_def)
  from split_point[OF fo v wide r]
  have p: "s < p" "p \<le> e"
    and zero: "\<forall>t \<in> {s..<p}. side fd ?half 0 s t = CHR ''0''"
    and one: "\<forall>t \<in> {p..e}. side fd ?half 0 s t = CHR ''1''"
    by blast+
  from split_range_table[OF v r] t
  have keys: "fst ` set enc' = fst ` set enc \<union> sym_at fd ` {s..e}" and 1: "table_ok enc'"
    by blast+
  have "sym_at fd ` {s..e} \<subseteq> fst ` set fd"
    using v by (auto intro!: sym_at_mem)
  with keys k have 2: "fst ` set enc' \<subseteq> fst ` set fd" by simp
  have 3: "stack_ok (length fd) ((s, p - 1) # (p, e) # rest)"
    using ok p by (rule stack_ok_split)
  note inj = sym_at_inj_on[OF d v]
  from split_range_codes[OF v inj r]
  have ci: "\<forall>t \<in> {s..e}. code_of enc' (sym_at fd t) = code_of enc (sym_at fd t) @ [side fd ?half 0 s t]"
    and co: "\<forall>c. c \<notin> sym_at fd ` {s..e} \<longrightarrow> code_of enc' c = code_of enc c"
    by blast+
  have 4: "pair_inv (length fd) (\<lambda>t. code_of enc' (sym_at fd t)) ([(s, p - 1), (p, e)] @ rest)"
  proof (rule pair_inv_step[OF pi ok, where bt = "side fd ?half 0 s"])
    show "\<forall>t \<in> {s..e}. code_of enc' (sym_at fd t) = code_of enc (sym_at fd t) @ [side fd ?half 0 s t]"
      by (rule ci)
    show "\<forall>t. 0 \<le> t \<and> t < int (length fd) \<and> t \<notin> {s..e} \<longrightarrow>
            code_of enc' (sym_at fd t) = code_of enc (sym_at fd t)"
    proof (intro allI impI)
      fix t assume a: "0 \<le> t \<and> t < int (length fd) \<and> t \<notin> {s..e}"
      have "sym_at fd t \<notin> sym_at fd ` {s..e}"
      proof
        assume "sym_at fd t \<in> sym_at fd ` {s..e}"
        then obtain u where u: "u \<in> {s..e}" "sym_at fd t = sym_at fd u" by blast
        with a v have "t = u" by (intro sym_at_inj[OF d]) auto
        with u a show False by simp
      qed
      with co show "code_of enc' (sym_at fd t) = code_of enc (sym_at fd t)" by blast
    qed
    show "\<forall>t t'. s \<le> t \<and> t < t' \<and> t' \<le> e \<and> side fd ?half 0 s t = side fd ?half 0 s t'
            \<longrightarrow> (\<exists>r \<in> set [(s, p - 1), (p, e)]. fst r \<le> t \<and> t' \<le> snd r)"
    proof (intro allI impI)
      fix t t' assume a: "s \<le> t \<and> t < t' \<and> t' \<le> e \<and> side fd ?half 0 s t = side fd ?half 0 s t'"
      show "\<exists>r \<in> set [(s, p - 1), (p, e)]. fst r \<le> t \<and> t' \<le> snd r"
      proof (cases "t' < p")
        case True
        with a show ?thesis by simp
      next
        case False
        have "p \<le> t"
        proof (rule ccontr)
          assume "\<not> p \<le> t"
          with a have "t \<in> {s..<p}" by simp
          with zero have "side fd ?half 0 s t = CHR ''0''" by blast
          moreover have "t' \<in> {p..e}" using False a by simp
          with one have "side fd ?half 0 s t' = CHR ''1''" by blast
          ultimately show False using a by simp
        qed
        with a show ?thesis by simp
      qed
    qed
  qed
  from p 1 2 3 4 show ?thesis by (simp add: enc_inv_def)
qed

lemma encode_loop_total:
  assumes fo: "freq_ok fd"
  shows "loop_inv fd enc stack \<Longrightarrow>
         \<exists>enc'. encode_loop fd enc stack = Some (Inr enc') \<and> loop_inv fd enc' []"
proof (induction "stack_measure stack" arbitrary: enc stack rule: less_induct)
  case less
  show ?case
  proof (cases stack)
    case Nil
    with less.prems show ?thesis
      by (subst encode_loop.simps) simp
  next
    case (Cons r rest)
    obtain s e where r: "r = (s, e)" by (cases r)
    note st = Cons[unfolded r]
    from less.prems have ok: "stack_ok (length fd) ((s, e) # rest)"
      and inv: "distinct (map fst fd) \<Longrightarrow> enc_inv fd enc ((s, e) # rest)"
      unfolding st by (simp_all add: loop_inv_def)
    from ok have v: "0 \<le> s" "s \<le> e" "e < int (length fd)"
      by (simp_all add: stack_ok_def)
    have ok': "stack_ok (length fd) rest" using ok by (rule stack_ok_tl)
    consider (single) "s = e" | (pair) "e - s = 1" | (wide) "s + 2 \<le> e"
      using v(2) by linarith
    then show ?thesis
    proof cases
      case single
      have step: "encode_loop fd enc stack = encode_loop fd enc rest"
        unfolding st by (subst encode_loop.simps) (simp add: single)
      have m: "stack_measure rest < stack_measure stack"
        unfolding st using v(2) by simp
      have "loop_inv fd enc rest"
        using ok' inv enc_inv_pop[of fd enc s rest] single by (simp add: loop_inv_def)
      from less.hyps[OF m this] show ?thesis
        unfolding step .
    next
      case pair
      let ?enc = "append_bit (sym_at fd e) CHR ''1'' (append_bit (sym_at fd s) CHR ''0'' enc)"
      have i_s: "py_index fd s = Inr (sym_at fd s, prob_at fd s)"
        and i_e: "py_index fd e = Inr (sym_at fd e, prob_at fd e)"
        using v pair by (auto intro!: py_index_ok)
      have step: "encode_loop fd enc stack = encode_loop fd ?enc rest"
        unfolding st using pair by (subst encode_loop.simps) (auto simp: i_s i_e)
      have m: "stack_measure rest < stack_measure stack"
        unfolding st using v(2) by simp
      have "loop_inv fd ?enc rest"
        using ok' inv enc_inv_pair[of fd enc s e rest] pair by (simp add: loop_inv_def)
      from less.hyps[OF m this] show ?thesis
        unfolding step .
    next
      case wide
      let ?half = "range_sum fd s e * (1/2)"
      have sr: "sum_range fd [s..e] 0 = Inr (range_sum fd s e)"
        using sum_range_ok[OF v(1,3), of 0] by simp
      from split_range_result[OF v(1,3), of ?half 0 "- 1" enc]
      obtain part' p enc' where sp: "split_range fd ?half [s..e] (0, - 1, enc) = Inr (part', p, enc')"
        by blast
      from split_point[OF fo v(1,3) wide sp] have p: "s < p" "p \<le> e" by blast+
      have "stack_ok (length fd) ((s, p - 1) # (p, e) # rest)"
        using ok p by (rule stack_ok_split)
      moreover have "enc_inv fd enc' ((s, p - 1) # (p, e) # rest)" if "distinct (map fst fd)"
        using enc_inv_split[OF fo that inv[OF that] wide sp] by blast
      ultimately have inv': "loop_inv fd enc' ((s, p - 1) # (p, e) # rest)"
        by (simp add: loop_inv_def)
      have step: "encode_loop fd enc stack = encode_loop fd enc' ((s, p - 1) # (p, e) # rest)"
        unfolding st using wide sp by (subst encode_loop.simps) (simp add: sr)
      have "stack_measure ((s, p - 1) # (p, e) # rest) < stack_measure stack"
        unfolding st using p by simp
      from less.hyps[OF this inv'] show ?thesis
        unfolding step .
    qed
  qed
qed

lemma encode_total:
  assumes fo: "freq_ok fd" and ne: "fd \<noteq> []"
  shows "\<exists>enc. encode fd = Some (Inr enc) \<and> (distinct (map fst fd) \<longrightarrow> enc_inv fd enc [])"
proof -
  have ok: "stack_ok (length fd) [(0, int (length fd) - 1)]"
    using ne by (simp add: stack_ok_def)
  have "enc_inv fd [] [(0, int (length fd) - 1)]"
    using ok by (auto simp: enc_inv_def table_ok_def pair_inv_def code_of_def)
  with ok have "loop_inv fd [] [(0, int (length fd) - 1)]"
    by (simp add: loop_inv_def)
  from encode_loop_total[OF fo this] show ?thesis
    by (auto simp: encode_def loop_inv_def)
qed

lemma table_ok_code_of:
  "table_ok enc \<Longrightarrow> (k, v) \<in> set enc \<Longrightarrow> code_of enc k = v"
  by (simp add: table_ok_def code_of_def)

lemma enc_inv_final:
  assumes inv: "enc_inv fd enc []"
  shows "table_ok enc" "fst ` set enc \<subseteq> fst ` set fd" "prefix_code enc" "distinct (map snd enc)"
proof -
  from inv show t: "table_ok enc" and k: "fst ` set enc \<subseteq> fst ` set fd"
    by (simp_all add: enc_inv_def)
  from inv have pi: "\<And>i j. 0 \<le> i \<Longrightarrow> i < j \<Longrightarrow> j < int (length fd) \<Longrightarrow>
      incomp (code_of enc (sym_at fd i)) (code_of enc (sym_at fd j))"
    by (simp add: enc_inv_def pair_inv_def)
  have diff: "incomp v v'" if a: "(c, v) \<in> set enc" "(c', v') \<in> set enc" "c \<noteq> c'" for c v c' v'
  proof -
    from a k have "c \<in> fst ` set fd" "c' \<in> fst ` set fd" by force+
    then obtain i j where i: "i < length fd" "c = fst (fd ! i)" and j: "j < length fd" "c' = fst (fd ! j)"
      by (auto simp: in_set_conv_nth)
    then have ci: "c = sym_at fd (int i)" and cj: "c' = sym_at fd (int j)"
      by (simp_all add: sym_at_def)
    from a(3) i j have "i \<noteq> j" by auto
    then consider "int i < int j" | "int j < int i" by linarith
    then have "incomp (code_of enc c) (code_of enc c')"
    proof cases
      case 1
      then show ?thesis using pi[of "int i" "int j"] j(1) unfolding ci cj by simp
    next
      case 2
      then show ?thesis using pi[of "int j" "int i"] i(1) unfolding ci cj by (simp add: incomp_sym)
    qed
    then show ?thesis
      using table_ok_code_of[OF t a(1)] table_ok_code_of[OF t a(2)] by simp
  qed
  show "prefix_code enc"
    unfolding prefix_code_def using diff by (auto simp: incomp_def)
  show "distinct (map snd enc)"
    unfolding distinct_conv_nth
  proof (intro allI impI)
    fix i j assume a: "i < length (map snd enc)" "j < length (map snd enc)" "i \<noteq> j"
    from t have "distinct (map fst enc)" by (simp add: table_ok_def)
    with a have "fst (enc ! i) \<noteq> fst (enc ! j)"
      by (simp add: distinct_conv_nth)
    moreover have "enc ! i \<in> set enc" "enc ! j \<in> set enc" using a by simp_all
    ultimately have "incomp (snd (enc ! i)) (snd (enc ! j))"
      using diff[of "fst (enc ! i)" "snd (enc ! i)" "fst (enc ! j)" "snd (enc ! j)"] by simp
    then have "snd (enc ! i) \<noteq> snd (enc ! j)" by (auto simp: incomp_def)
    with a show "map snd enc ! i \<noteq> map snd enc ! j" by simp
  qed
qed

section \<open>The frequency list\<close>

lemma counter_update_keys: "fst ` set (counter_update c m) = insert c (fst ` set m)"
proof (induction m)
  case Nil
  show ?case by simp
next
  case (Cons kv m)
  obtain k n where kv: "kv = (k, n)" by (cases kv)
  show ?case
  proof (cases "k = c")
    case True
    then show ?thesis by (simp add: kv insert_absorb)
  next
    case False
    with Cons.IH show ?thesis by (simp add: kv insert_commute)
  qed
qed

lemma counter_update_distinct:
  "distinct (map fst m) \<Longrightarrow> distinct (map fst (counter_update c m))"
proof (induction m)
  case Nil
  show ?case by simp
next
  case (Cons kv m)
  obtain k n where kv: "kv = (k, n)" by (cases kv)
  from Cons.prems have d: "distinct (map fst m)" and f: "k \<notin> fst ` set m" by (simp_all add: kv)
  show ?case
  proof (cases "k = c")
    case True
    with Cons.prems show ?thesis by (simp add: kv)
  next
    case False
    with f have "k \<notin> fst ` set (counter_update c m)" by (simp add: counter_update_keys)
    with False Cons.IH[OF d] show ?thesis by (simp add: kv)
  qed
qed

lemma counter_update_pos:
  "\<forall>kn \<in> set m. 0 < snd kn \<Longrightarrow> \<forall>kn \<in> set (counter_update c m). 0 < snd kn"
  by (induction m) (fastforce split: if_splits)+

lemma count_chars_props:
  "distinct (map fst m) \<Longrightarrow> \<forall>kn \<in> set m. 0 < snd kn \<Longrightarrow>
   distinct (map fst (count_chars cs m)) \<and> (\<forall>kn \<in> set (count_chars cs m). 0 < snd kn)
   \<and> fst ` set (count_chars cs m) = fst ` set m \<union> set cs"
proof (induction cs arbitrary: m)
  case Nil
  then show ?case by simp
next
  case (Cons c cs)
  from Cons.IH[OF counter_update_distinct[OF Cons.prems(1)] counter_update_pos[OF Cons.prems(2)], of c]
  show ?case by (simp add: counter_update_keys)
qed

lemma most_common_props:
  "set (most_common m) = set m" "distinct (map fst (most_common m)) = distinct (map fst m)"
  "sorted_wrt (\<lambda>a b. snd b \<le> snd a) (most_common m)"
proof -
  show "set (most_common m) = set m" by (simp add: most_common_def)
  have "mset (map fst (most_common m)) = mset (map fst m)"
    by (simp add: most_common_def)
  then show "distinct (map fst (most_common m)) = distinct (map fst m)"
    by (rule mset_eq_imp_distinct_iff)
  have "sorted (map (\<lambda>(c, n). - int n) (most_common m))"
    unfolding most_common_def by (rule sorted_sort_key)
  then have "sorted_wrt (\<lambda>a b. (case a of (c, n) \<Rightarrow> - int n) \<le> (case b of (c, n) \<Rightarrow> - int n)) (most_common m)"
    by (simp add: sorted_map)
  then show "sorted_wrt (\<lambda>a b. snd b \<le> snd a) (most_common m)"
    by (rule sorted_wrt_mono_rel[rotated]) (auto split: prod.splits)
qed

lemma frequency_props:
  "fst (frequency x) = length x"
  "distinct (map fst (snd (frequency x)))"
  "fst ` set (snd (frequency x)) = set x"
  "length (snd (frequency x)) = card (set x)"
  "x \<noteq> [] \<Longrightarrow> freq_ok (snd (frequency x))"
  "snd (frequency x) = [] \<longleftrightarrow> x = []"
proof -
  let ?mc = "most_common (count_chars x [])"
  let ?g = "\<lambda>(char, stat). (char, rat_of_nat stat / rat_of_nat (length x))"
  have fd: "snd (frequency x) = map ?g ?mc" by (simp add: frequency_def Let_def)
  have fsts: "map fst (map ?g ?mc) = map fst ?mc" by (auto split: prod.splits)
  from count_chars_props[of "[]" x]
  have cc: "distinct (map fst (count_chars x []))" "\<forall>kn \<in> set (count_chars x []). 0 < snd kn"
    "fst ` set (count_chars x []) = set x" by simp_all
  show "fst (frequency x) = length x" by (simp add: frequency_def Let_def)
  show d: "distinct (map fst (snd (frequency x)))"
    unfolding fd fsts using cc(1) by (simp add: most_common_props)
  have "set (map fst (snd (frequency x))) = set x"
    unfolding fd fsts using cc(3) by (simp add: most_common_props)
  then show k: "fst ` set (snd (frequency x)) = set x" by simp
  have "length (snd (frequency x)) = length (map fst (snd (frequency x)))" by simp
  also have "\<dots> = card (set (map fst (snd (frequency x))))"
    using d by (simp only: distinct_card)
  finally show "length (snd (frequency x)) = card (set x)" using k by simp
  show "freq_ok (snd (frequency x))" if "x \<noteq> []"
  proof -
    from that have pos: "0 < rat_of_nat (length x)" by simp
    have "0 < snd cp" if "cp \<in> set (map ?g ?mc)" for cp
    proof -
      from that obtain c n where "(c, n) \<in> set ?mc" "cp = (c, rat_of_nat n / rat_of_nat (length x))"
        by auto
      with cc(2) pos show ?thesis by (auto simp: most_common_props)
    qed
    moreover have "sorted_wrt (\<lambda>a b. snd b \<le> snd a) (map ?g ?mc)"
      unfolding sorted_wrt_map
      by (rule sorted_wrt_mono_rel[OF _ most_common_props(3)])
        (auto split: prod.splits simp: divide_right_mono)
    ultimately show ?thesis unfolding fd freq_ok_def by blast
  qed
  show "snd (frequency x) = [] \<longleftrightarrow> x = []"
    using k by (metis image_is_empty set_empty)
qed

section \<open>Decoding the payload\<close>

lemma prefix_code_distinct:
  assumes "table_ok enc" "prefix_code enc"
  shows "distinct (map snd enc)"
  unfolding distinct_conv_nth
proof (intro allI impI)
  fix i j assume a: "i < length (map snd enc)" "j < length (map snd enc)" "i \<noteq> j"
  from assms(1) have "distinct (map fst enc)" by (simp add: table_ok_def)
  with a have "fst (enc ! i) \<noteq> fst (enc ! j)" by (simp add: distinct_conv_nth)
  moreover have "enc ! i \<in> set enc" "enc ! j \<in> set enc" using a by simp_all
  ultimately have "\<not> prefix (snd (enc ! i)) (snd (enc ! j))"
    using assms(2) unfolding prefix_code_def by blast
  then have "snd (enc ! i) \<noteq> snd (enc ! j)" by auto
  with a show "map snd enc ! i \<noteq> map snd enc ! j" by simp
qed

lemma swap_table_lookup:
  assumes "distinct (map snd enc)"
  shows "map_of (swap_table enc) v = Some k \<longleftrightarrow> (k, v) \<in> set enc"
proof -
  have "map fst (swap_table enc) = map snd enc"
    unfolding swap_table_def by (induction enc) auto
  with assms have "distinct (map fst (swap_table enc))" by (simp only:)
  then have "map_of (swap_table enc) v = Some k \<longleftrightarrow> (v, k) \<in> set (swap_table enc)"
    by simp
  also have "\<dots> \<longleftrightarrow> (k, v) \<in> set enc"
    unfolding swap_table_def by auto
  finally show ?thesis .
qed

lemma code_of_mem:
  "table_ok enc \<Longrightarrow> c \<in> fst ` set enc \<Longrightarrow> (c, code_of enc c) \<in> set enc \<and> code_of enc c \<noteq> []"
proof -
  assume t: "table_ok enc" and c: "c \<in> fst ` set enc"
  then obtain v where v: "(c, v) \<in> set enc" by force
  with t have "code_of enc c = v" by (rule table_ok_code_of)
  with v t show ?thesis by (auto simp: table_ok_def)
qed

lemma payload_bits_Cons: "payload_bits enc (c # cs) = code_of enc c @ payload_bits enc cs"
  by (simp add: payload_bits_def)

lemma payload_bits_Nil [simp]: "payload_bits enc [] = []"
  by (simp add: payload_bits_def)

lemma unpack_bits_inv:
  assumes t: "table_ok enc" and pc: "prefix_code enc" and keys: "set xs \<subseteq> fst ` set enc"
  shows "dec_inv enc xs buf r out (w @ fut) \<Longrightarrow>
    (case unpack_bits w (map_of (swap_table enc)) ((length \<circ> snd) ` set enc) (buf, r, out) of
       (buf', r', out') \<Rightarrow>
         (r' \<noteq> 0 \<and> dec_inv enc xs buf' r' out' fut) \<or> (r' = 0 \<and> out' = xs \<and> length fut < 8))"
proof (induction w arbitrary: buf r out)
  case Nil
  then show ?case by (auto simp: dec_inv_def)
next
  case (Cons b w)
  let ?dec = "map_of (swap_table enc)" and ?vl = "(length \<circ> snd) ` set enc"
  note dist = prefix_code_distinct[OF t pc]
  from Cons.prems obtain ys k where
    eq: "buf @ (b # w) @ fut = payload_bits enc ys @ replicate k CHR ''0''" and k: "k < 8"
    and r: "r = int (length ys)" and out: "out @ ys = xs" and ne: "ys \<noteq> []"
    and short: "length buf < length (code_of enc (hd ys))"
    unfolding dec_inv_def by blast
  obtain c ys' where ys: "ys = c # ys'" using ne by (cases ys) auto
  let ?cw = "code_of enc c"
  from out ys keys have ck: "c \<in> fst ` set enc" by auto
  from code_of_mem[OF t ck] have cmem: "(c, ?cw) \<in> set enc" and cne: "?cw \<noteq> []" by simp_all
  from short ys have short': "length buf < length ?cw" by simp
  have eq': "(buf @ [b]) @ w @ fut = ?cw @ payload_bits enc ys' @ replicate k CHR ''0''"
    using eq ys by (simp add: payload_bits_Cons)
  have pre: "prefix (buf @ [b]) ?cw"
  proof -
    have "take (length (buf @ [b])) ((buf @ [b]) @ w @ fut) = take (length (buf @ [b])) (?cw @ payload_bits enc ys' @ replicate k CHR ''0'')"
      by (simp only: eq')
    then have "buf @ [b] = take (length buf + 1) ?cw"
      using short' by simp
    then show ?thesis by (metis take_is_prefix)
  qed
  show ?case
  proof (cases "buf @ [b] = ?cw")
    case True
    then have hit: "length (buf @ [b]) \<in> ?vl" "?dec (buf @ [b]) = Some c"
      using cmem swap_table_lookup[OF dist, of ?cw c] by (force, simp)
    from eq' True have rest: "w @ fut = payload_bits enc ys' @ replicate k CHR ''0''" by simp
    show ?thesis
    proof (cases "ys' = []")
      case True
      with r ys have r1: "r - 1 = 0" by simp
      from True out ys have o: "out @ [c] = xs" by simp
      from rest True have "length (w @ fut) = k" by simp
      with k have "length fut < 8" by simp
      with hit r1 o show ?thesis by simp
    next
      case False
      with r ys have r1: "r - 1 \<noteq> 0" by (cases ys') auto
      from False out ys keys have "hd ys' \<in> fst ` set enc" by (cases ys') auto
      from code_of_mem[OF t this] have "code_of enc (hd ys') \<noteq> []" by simp
      with rest k r ys out False have "dec_inv enc xs [] (r - 1) (out @ [c]) (w @ fut)"
        unfolding dec_inv_def by (intro exI[of _ ys'] exI[of _ k]) simp
      from Cons.IH[OF this] hit r1 show ?thesis by simp
    qed
  next
    case False
    have miss: "\<not> (length (buf @ [b]) \<in> ?vl \<and> ?dec (buf @ [b]) \<noteq> None)"
    proof
      assume "length (buf @ [b]) \<in> ?vl \<and> ?dec (buf @ [b]) \<noteq> None"
      then obtain elt where "?dec (buf @ [b]) = Some elt" by auto
      then have m: "(elt, buf @ [b]) \<in> set enc" by (simp add: swap_table_lookup[OF dist])
      have "elt = c"
      proof (rule ccontr)
        assume "elt \<noteq> c"
        with pc m cmem have "\<not> prefix (buf @ [b]) ?cw"
          unfolding prefix_code_def by force
        with pre show False by simp
      qed
      with m t have "buf @ [b] = ?cw" by (simp add: table_ok_code_of)
      with False show False by simp
    qed
    from pre False have "length (buf @ [b]) < length ?cw"
      by (metis prefix_length_le le_neq_implies_less prefix_length_prefix prefix_order.eq_iff order_refl)
    with eq k r out ne ys have "dec_inv enc xs (buf @ [b]) r out (w @ fut)"
      unfolding dec_inv_def by (intro exI[of _ ys] exI[of _ k]) simp
    from Cons.IH[OF this] miss show ?thesis
      by (auto split: option.splits)
  qed
qed

lemma unpack_bytes_inv:
  assumes t: "table_ok enc" and pc: "prefix_code enc" and keys: "set xs \<subseteq> fst ` set enc"
  shows "dec_inv enc xs buf r out (concat (map byte_bits bs)) \<Longrightarrow>
    snd (snd (unpack_bytes bs (map_of (swap_table enc)) ((length \<circ> snd) ` set enc) (buf, r, out))) = xs"
proof (induction bs arbitrary: buf r out)
  case Nil
  then obtain ys k where "buf = payload_bits enc ys @ replicate k CHR ''0''" "ys \<noteq> []"
    "length buf < length (code_of enc (hd ys))"
    unfolding dec_inv_def by auto
  then have False by (cases ys) (simp_all add: payload_bits_Cons)
  then show ?case ..
next
  case (Cons b bs)
  let ?dec = "map_of (swap_table enc)" and ?vl = "(length \<circ> snd) ` set enc"
  obtain buf' r' out' where u: "unpack_bits (byte_bits b) ?dec ?vl (buf, r, out) = (buf', r', out')"
    by (cases "unpack_bits (byte_bits b) ?dec ?vl (buf, r, out)") auto
  from Cons.prems have "dec_inv enc xs buf r out (byte_bits b @ concat (map byte_bits bs))" by simp
  from unpack_bits_inv[OF t pc keys this] u
  consider (more) "r' \<noteq> 0" "dec_inv enc xs buf' r' out' (concat (map byte_bits bs))"
    | (finished) "r' = 0" "out' = xs" "length (concat (map byte_bits bs)) < 8"
    by auto
  then show ?case
  proof cases
    case more
    from Cons.IH[OF more(2)] u show ?thesis by (simp add: byte_bits_def)
  next
    case finished
    then have "bs = []" by simp
    with finished u show ?thesis by (simp add: byte_bits_def)
  qed
qed

lemma unpack_data_ok:
  assumes t: "table_ok enc" and pc: "prefix_code enc" and keys: "set xs \<subseteq> fst ` set enc"
    and bits: "concat (map byte_bits bs) = payload_bits enc xs @ replicate k CHR ''0''" and k: "k < 8"
  shows "unpack_data bs (int (length xs)) (map_of (swap_table enc)) ((length \<circ> snd) ` set enc) = xs"
proof (cases "xs = []")
  case True
  with bits have "length (concat (map byte_bits bs)) = k" by simp
  with k have "8 * length bs < 8" by simp
  then have "bs = []" by simp
  with True show ?thesis by (simp add: unpack_data_def)
next
  case False
  from False keys have "hd xs \<in> fst ` set enc" by (cases xs) auto
  from code_of_mem[OF t this] have "code_of enc (hd xs) \<noteq> []" by simp
  with bits k False have "dec_inv enc xs [] (int (length xs)) [] (concat (map byte_bits bs))"
    unfolding dec_inv_def by (intro exI[of _ xs] exI[of _ k]) simp
  from unpack_bytes_inv[OF t pc keys this] show ?thesis
    by (auto simp: unpack_data_def split: prod.splits)
qed

lemma unpack_ok:
  assumes t: "table_ok enc" and pc: "prefix_code enc" and keys: "set xs \<subseteq> fst ` set enc"
    and n: "length fd = length enc"
    and hdr: "pack_metadata [] enc (length xs) fd = (header, None)"
    and bits: "concat (map byte_bits bs) = payload_bits enc xs @ replicate k CHR ''0''" and k: "k < 8"
  shows "unpack (header @ bs) = xs"
proof -
  from hdr have lt: "length fd < 256" "length xs < 256"
    and pe: "pack_entries enc [of_nat (length fd), of_nat (length xs)] = (header, None)"
    by (auto simp: pack_metadata_def to_byte_def split: if_splits)
  from pack_entries_None_ok[OF pe] have ok: "list_all entry_ok enc" .
  from pack_entries_ok[OF ok, of "[of_nat (length fd), of_nat (length xs)]"] pe
  have header: "header = [of_nat (length enc), of_nat (length xs)] @ concat (map entry_bytes enc)"
    using n by simp
  have "unpack_metadata (header @ bs) =
      (length xs, decoder_of enc Map.empty, (length \<circ> snd) ` set enc, bs)"
    unfolding header using unpack_metadata_ok[OF _ lt(2) ok, of bs] lt(1) n by simp
  moreover have "decoder_of enc Map.empty = map_of (swap_table enc)"
    unfolding swap_table_def by (rule decoder_of_distinct[OF prefix_code_distinct[OF t pc]])
  ultimately show ?thesis
    using unpack_data_ok[OF t pc keys bits k] by (simp add: unpack_def)
qed

section \<open>The input \<open>abcd\<close>\<close>

text \<open>
  Claim C3 says that for \<open>abcd\<close> every symbol gets a codeword of 2 bits. The split
  tests \<open>partition <= half\<close> before the current probability is added, so of four equal
  probabilities three go to the \<open>0\<close> side: the codewords are \<open>000\<close>, \<open>001\<close>, \<open>01\<close>, \<open>1\<close>.
\<close>

theorem abcd_not_two_bits:
  "encode (snd (frequency (map of_char ''abcd''))) =
     Some (Inr [(97, ''000''), (98, ''001''), (99, ''01''), (100, ''1'')])
   \<and> map (length \<circ> snd) [(97 :: symbol, ''000''), (98, ''001''), (99, ''01''), (100, ''1'')]
       \<noteq> [2, 2, 2, 2]"
  by code_simp

text \<open>
  Claim C3 as amended: for \<open>abcd\<close> the codewords have 3, 3, 2 and 1 bits, \<open>pack\<close>
  succeeds, and \<open>unpack\<close> of the packed file is \<open>abcd\<close>.
\<close>

theorem abcd_round_trip:
  "encode (snd (frequency (map of_char ''abcd''))) =
     Some (Inr [(97, ''000''), (98, ''001''), (99, ''01''), (100, ''1'')])
   \<and> pack (map of_char ''abcd'') =
       Some ([4, 4, 97, 3, 0, 98, 3, 1, 99, 2, 1, 100, 1, 1, 5, 128], None)
   \<and> unpack [4, 4, 97, 3, 0, 98, 3, 1, 99, 2, 1, 100, 1, 1, 5, 128] = map of_char ''abcd''"
  by code_simp

end
